theory Spec2Isabelle
  imports Complex_Main "HOL-Library.Multiset"
begin

section \<open>Image similarity checker: the embedding\<close>

text \<open>
  A shallow embedding of \<^verbatim>\<open>image_similarity_checker.py\<close>. The operating system, OpenCV,
  scikit-image and the optional progress-bar library are outside the program; their
  answers are the fields of a \<open>world\<close> record that every function takes as its first
  argument. Exceptions are values: a call that may raise returns \<open>exn + 'a\<close>, a loop
  returns the exception that left it (if any) together with the local variables at that
  moment. What the program prints is an \<open>event list\<close>.
\<close>

subsection \<open>Exceptions, arrays, console events\<close>

type_synonym path = string

datatype exn =
    KeyboardInterrupt
  | UnboundLocalError
  | ZeroDivisionError
  | IndexError
  | OSError
  | CvError
  | ValueError

text \<open>
  \<^verbatim>\<open>except Exception\<close> catches every exception of the program but
  \<^verbatim>\<open>KeyboardInterrupt\<close>, which derives from \<^verbatim>\<open>BaseException\<close> only. A bare
  \<^verbatim>\<open>except:\<close> catches all of them.
\<close>

fun is_Exception :: "exn \<Rightarrow> bool" where
  "is_Exception KeyboardInterrupt = False"
| "is_Exception _ = True"

text \<open>
  A numpy array: its \<^verbatim>\<open>shape\<close> tuple and its elements (row-major). A colour image has
  shape \<open>[h, w, 3]\<close>, a grey one \<open>[h, w]\<close>.
\<close>

record ndarray =
  shape :: "nat list"
  pixels :: "nat list"

type_synonym match = "string \<times> string \<times> real"

definition score :: "match \<Rightarrow> real" where
  "score x = snd (snd x)"

datatype event =
    NoSuchFolder path
  | NeedTwoImages
  | LoadFailed string exn
  | PreprocessFailed string exn
  | CompareFailed exn
  | PairProgress string string real nat nat
  | FoundCount nat
  | Row nat string string real
  | Interrupted
  | TitleDone
  | Found string real
  | ResultsHeader
  | ResultRow string real
  | NoMatches

text \<open>
  The events are the lines the program prints: \<open>LoadFailed\<close> is line 60,
  \<open>PreprocessFailed\<close> line 164, \<open>CompareFailed\<close> line 205, \<open>PairProgress\<close> the bar
  update of lines 211-218 (the two truncated names, the similarity, \<^verbatim>\<open>current_pair\<close> and
  \<^verbatim>\<open>total_pairs\<close>), \<open>FoundCount\<close> line 233, \<open>Row\<close> line 239, \<open>Interrupted\<close> line 244,
  \<open>TitleDone\<close> line 247, \<open>Found\<close> line 115, \<open>ResultsHeader\<close> and \<open>ResultRow\<close> lines 121-123,
  \<open>NoMatches\<close> line 125. The elapsed time, the rolling file history of
  \<^verbatim>\<open>load_image\<close> and the other cosmetic writes are not modelled.
\<close>

subsection \<open>The world outside the program\<close>

record world =
  tqdm :: bool
  isdir :: "path \<Rightarrow> bool"
  listdir :: "path \<Rightarrow> string list"
  abspath :: "path \<Rightarrow> path"
  read_file :: "path \<Rightarrow> exn + nat list"
  imdecode :: "nat list \<Rightarrow> exn + ndarray option"
  resize_data :: "ndarray \<Rightarrow> nat \<times> nat \<Rightarrow> nat list"
  gray_data :: "ndarray \<Rightarrow> nat list"
  ssim :: "ndarray \<Rightarrow> ndarray \<Rightarrow> exn + real"

text \<open>
  \<open>tqdm\<close> says whether the import of line 14 succeeded. \<open>read_file\<close> is
  \<^verbatim>\<open>open(p, 'rb').read()\<close>, \<open>imdecode\<close> is \<^verbatim>\<open>cv2.imdecode\<close>, which answers
  \<^verbatim>\<open>None\<close> for bytes that are no image; \<open>ssim\<close> is
  \<^verbatim>\<open>structural_similarity(a, b, full=True)[0]\<close>. An operator's interrupt reaches the
  program as a \<open>KeyboardInterrupt\<close> raised by one of these calls.
\<close>

subsection \<open>Strings and paths\<close>

definition lower_char :: "char \<Rightarrow> char" where
  "lower_char c =
     (let n = (of_char c :: nat) in if 65 \<le> n \<and> n \<le> 90 then char_of (n + 32) else c)"

definition lower :: "string \<Rightarrow> string" where
  "lower s = map lower_char s"

definition endswith :: "string \<Rightarrow> string \<Rightarrow> bool" where
  "endswith s sfx = (length sfx \<le> length s \<and> drop (length s - length sfx) s = sfx)"

definition image_extensions :: "string list" where
  "image_extensions = [''.png'', ''.jpg'', ''.jpeg'', ''.bmp'', ''.tiff'']"

definition is_image_name :: "string \<Rightarrow> bool" where
  "is_image_name f = list_ex (endswith (lower f)) image_extensions"

text \<open>\<^verbatim>\<open>os.path.join\<close> and \<^verbatim>\<open>os.path.basename\<close>, as \<^verbatim>\<open>posixpath\<close> defines them.\<close>

definition path_join :: "path \<Rightarrow> string \<Rightarrow> path" where
  "path_join a b =
     (if b \<noteq> [] \<and> hd b = CHR ''/'' then b
      else if a = [] \<or> last a = CHR ''/'' then a @ b
      else a @ ''/'' @ b)"

definition basename :: "path \<Rightarrow> string" where
  "basename p = rev (takeWhile (\<lambda>c. c \<noteq> CHR ''/'') (rev p))"

definition comb :: "nat \<Rightarrow> nat \<Rightarrow> nat" where
  "comb n k = n choose k"

subsection \<open>OpenCV calls\<close>

text \<open>
  \<^verbatim>\<open>cv2.resize(src, (w, h))\<close> raises on \<^verbatim>\<open>None\<close>, on an empty size, on an empty
  source (one of its axes is \<open>0\<close>), on a source of more than three axes and on one
  whose third axis is longer than the 512 channels OpenCV allows. An array of one axis,
  or of none, is a single-channel matrix to it. Otherwise the result has \<open>h\<close> rows,
  \<open>w\<close> columns and the channels of \<open>src\<close>.
  \<^verbatim>\<open>cv2.cvtColor(src, COLOR_BGR2GRAY)\<close> wants three or four channels and answers a
  two-dimensional array of the same height and width. The element values are the
  world's.
\<close>

definition cv2_resize :: "world \<Rightarrow> ndarray option \<Rightarrow> nat \<times> nat \<Rightarrow> exn + ndarray" where
  "cv2_resize W src dsize =
     (case src of
        None \<Rightarrow> Inl CvError
      | Some a \<Rightarrow>
          if fst dsize = 0 \<or> snd dsize = 0 \<or> 0 \<in> set (shape a) \<or> 3 < length (shape a)
             \<or> (length (shape a) = 3 \<and> 512 < shape a ! 2)
          then Inl CvError
          else Inr \<lparr>shape = snd dsize # fst dsize # drop 2 (shape a),
                    pixels = resize_data W a dsize\<rparr>)"

definition cv2_cvtColor_BGR2GRAY :: "world \<Rightarrow> ndarray \<Rightarrow> exn + ndarray" where
  "cv2_cvtColor_BGR2GRAY W a =
     (if length (shape a) = 3 \<and> (shape a ! 2 = 3 \<or> shape a ! 2 = 4)
      then Inr \<lparr>shape = take 2 (shape a), pixels = gray_data W a\<rparr>
      else Inl CvError)"

subsection \<open>load_image, preprocess_image, compare_images\<close>

definition load_except :: "path \<Rightarrow> exn \<Rightarrow> event list \<times> (exn + ndarray option)" where
  "load_except image_path e =
     (if is_Exception e then ([LoadFailed (basename image_path) e], Inr None)
      else ([], Inl e))"

definition load_image :: "world \<Rightarrow> path \<Rightarrow> bool \<Rightarrow> event list \<times> (exn + ndarray option)" where
  "load_image W image_path verbose =
     (let absolute_path = abspath W image_path in
      case read_file W absolute_path of
        Inl e \<Rightarrow> load_except image_path e
      | Inr file_bytes \<Rightarrow>
          (case imdecode W file_bytes of
             Inl e \<Rightarrow> load_except image_path e
           | Inr img \<Rightarrow> ([], Inr img)))"

definition default_size :: "nat \<times> nat" where
  "default_size = (300, 300)"

definition preprocess_image :: "world \<Rightarrow> ndarray option \<Rightarrow> nat \<times> nat \<Rightarrow> exn + ndarray" where
  "preprocess_image W img dsize =
     (case cv2_resize W img dsize of
        Inl e \<Rightarrow> Inl e
      | Inr resized \<Rightarrow> cv2_cvtColor_BGR2GRAY W resized)"

definition compare_images :: "world \<Rightarrow> ndarray \<Rightarrow> ndarray \<Rightarrow> exn + real" where
  "compare_images W img1 img2 =
     (case ssim W img1 img2 of Inl e \<Rightarrow> Inl e | Inr s \<Rightarrow> Inr (s * 100))"

subsection \<open>Shape reconciliation and the scoring of one pair\<close>

text \<open>
  Lines 194-195 (and 87-88, 108-110): \<^verbatim>\<open>img2\<close> is rebound to a fresh array when the
  shapes differ. Reading \<^verbatim>\<open>shape[1]\<close> of an array with fewer than two dimensions raises.
\<close>

definition reconcile :: "world \<Rightarrow> ndarray \<Rightarrow> ndarray \<Rightarrow> exn + ndarray" where
  "reconcile W img1 img2 =
     (if shape img1 \<noteq> shape img2
      then (if length (shape img1) < 2 then Inl IndexError
            else cv2_resize W (Some img2) (shape img1 ! 1, shape img1 ! 0))
      else Inr img2)"

definition try_compare :: "world \<Rightarrow> ndarray \<Rightarrow> ndarray \<Rightarrow> exn + real" where
  "try_compare W img1 img2 =
     (case reconcile W img1 img2 of
        Inl e \<Rightarrow> Inl e
      | Inr img2' \<Rightarrow> compare_images W img1 img2')"

subsection \<open>Sorting\<close>

text \<open>
  \<^verbatim>\<open>xs.sort(key=k, reverse=True)\<close>: descending in the key, and Python keeps the
  original order of elements with equal keys also when \<^verbatim>\<open>reverse\<close> is set.
\<close>

fun insort_reverse :: "('a \<Rightarrow> real) \<Rightarrow> 'a \<Rightarrow> 'a list \<Rightarrow> 'a list" where
  "insort_reverse k x [] = [x]"
| "insort_reverse k x (y # ys) =
     (if k x < k y then y # insort_reverse k x ys else x # y # ys)"

definition sort_reverse :: "('a \<Rightarrow> real) \<Rightarrow> 'a list \<Rightarrow> 'a list" where
  "sort_reverse k xs = foldr (insort_reverse k) xs []"

subsection \<open>auto_scan_folder\<close>

record scan_state =
  processed_images :: "path \<rightharpoonup> ndarray"
  results :: "match list"
  current_pair :: nat
  out :: "event list"

definition init_state :: scan_state where
  "init_state = \<lparr>processed_images = Map.empty, results = [], current_pair = 0, out = []\<rparr>"

definition say :: "event list \<Rightarrow> scan_state \<Rightarrow> scan_state" where
  "say evs st = st\<lparr>out := out st @ evs\<rparr>"

text \<open>Lines 155-165: the body of the \<^verbatim>\<open>try\<close> and the loop around it.\<close>

definition load_body :: "world \<Rightarrow> path \<Rightarrow> event list \<times> (exn + ndarray)" where
  "load_body W img_path =
     (case load_image W img_path (\<not> tqdm W) of
        (evs, Inl e) \<Rightarrow> (evs, Inl e)
      | (evs, Inr img) \<Rightarrow> (evs, preprocess_image W img default_size))"

fun load_loop :: "world \<Rightarrow> path list \<Rightarrow> scan_state \<Rightarrow> exn option \<times> scan_state" where
  "load_loop W [] st = (None, st)"
| "load_loop W (img_path # rest) st =
     (case load_body W img_path of
        (evs, Inr processed) \<Rightarrow>
          load_loop W rest
            ((say evs st)\<lparr>processed_images := (processed_images st)(img_path \<mapsto> processed)\<rparr>)
      | (evs, Inl e) \<Rightarrow>
          if is_Exception e
          then load_loop W rest (say (evs @ [PreprocessFailed (basename img_path) e]) st)
          else (Some e, say evs st))"

text \<open>
  Lines 208-222. With the progress bar the pair is reported; without it line 220 reads
  the local variable \<^verbatim>\<open>progress\<close>, which only line 217 of the other branch assigns.
\<close>

definition progress_update ::
  "world \<Rightarrow> nat \<Rightarrow> path \<Rightarrow> path \<Rightarrow> real \<Rightarrow> scan_state \<Rightarrow> exn option \<times> scan_state" where
  "progress_update W total_pairs img1_path img2_path similarity st =
     (let st' = st\<lparr>current_pair := current_pair st + 1\<rparr> in
      if tqdm W then
        (if total_pairs = 0 then (Some ZeroDivisionError, st')
         else (None, say [PairProgress (take 15 (basename img1_path))
                            (take 15 (basename img2_path)) similarity
                            (current_pair st') total_pairs] st'))
      else (Some UnboundLocalError, st'))"

text \<open>Lines 191-222: one pair.\<close>

definition pair_step ::
  "world \<Rightarrow> real \<Rightarrow> nat \<Rightarrow> path \<Rightarrow> ndarray \<Rightarrow> path \<Rightarrow> ndarray \<Rightarrow> scan_state
     \<Rightarrow> exn option \<times> scan_state" where
  "pair_step W min_similarity total_pairs img1_path img1 img2_path img2 st =
     (case try_compare W img1 img2 of
        Inr similarity \<Rightarrow>
          progress_update W total_pairs img1_path img2_path similarity
            (if similarity \<ge> min_similarity
             then st\<lparr>results := results st @
                      [(basename img1_path, basename img2_path, similarity)]\<rparr>
             else st)
      | Inl e \<Rightarrow>
          if is_Exception e
          then progress_update W total_pairs img1_path img2_path 0 (say [CompareFailed e] st)
          else (Some e, st))"

text \<open>
  Lines 179-222: \<^verbatim>\<open>for i in range(len(image_files))\<close> over \<^verbatim>\<open>image_files[i]\<close> and
  \<^verbatim>\<open>for j in range(i+1, len(image_files))\<close> over the rest of the list.
\<close>

fun inner_loop ::
  "world \<Rightarrow> real \<Rightarrow> nat \<Rightarrow> path \<Rightarrow> ndarray \<Rightarrow> path list \<Rightarrow> scan_state
     \<Rightarrow> exn option \<times> scan_state" where
  "inner_loop W min_similarity total_pairs img1_path img1 [] st = (None, st)"
| "inner_loop W min_similarity total_pairs img1_path img1 (img2_path # rest) st =
     (case processed_images st img2_path of
        None \<Rightarrow> inner_loop W min_similarity total_pairs img1_path img1 rest st
      | Some img2 \<Rightarrow>
          (case pair_step W min_similarity total_pairs img1_path img1 img2_path img2 st of
             (Some e, st') \<Rightarrow> (Some e, st')
           | (None, st') \<Rightarrow> inner_loop W min_similarity total_pairs img1_path img1 rest st'))"

fun outer_loop ::
  "world \<Rightarrow> real \<Rightarrow> nat \<Rightarrow> path list \<Rightarrow> scan_state \<Rightarrow> exn option \<times> scan_state" where
  "outer_loop W min_similarity total_pairs [] st = (None, st)"
| "outer_loop W min_similarity total_pairs (img1_path # rest) st =
     (case processed_images st img1_path of
        None \<Rightarrow> outer_loop W min_similarity total_pairs rest st
      | Some img1 \<Rightarrow>
          (case inner_loop W min_similarity total_pairs img1_path img1 rest st of
             (Some e, st') \<Rightarrow> (Some e, st')
           | (None, st') \<Rightarrow> outer_loop W min_similarity total_pairs rest st'))"

definition image_files_of :: "world \<Rightarrow> path \<Rightarrow> path list" where
  "image_files_of W folder_path =
     map (path_join folder_path) (filter is_image_name (listdir W folder_path))"

definition rows :: "match list \<Rightarrow> event list" where
  "rows xs = map (\<lambda>(idx, (img1, img2, sim)). Row idx img1 img2 sim) (enumerate 1 xs)"

text \<open>Lines 143-222: the load phase, then the comparison of the pairs.\<close>

definition scan_loops :: "world \<Rightarrow> real \<Rightarrow> path list \<Rightarrow> exn option \<times> scan_state" where
  "scan_loops W min_similarity image_files =
     (let total_pairs = comb (length image_files) 2 in
      case load_loop W image_files init_state of
        (Some e, st) \<Rightarrow> (Some e, st)
      | (None, st) \<Rightarrow> outer_loop W min_similarity total_pairs image_files st)"

text \<open>Lines 130-241, the body of the outer \<^verbatim>\<open>try\<close>.\<close>

definition auto_scan_try :: "world \<Rightarrow> path \<Rightarrow> real \<Rightarrow> event list \<times> (exn + match list)" where
  "auto_scan_try W folder_path min_similarity =
     (if \<not> isdir W folder_path then ([NoSuchFolder folder_path], Inr [])
      else
        let image_files = image_files_of W folder_path in
        if length image_files < 2 then ([NeedTwoImages], Inr [])
        else
          (case scan_loops W min_similarity image_files of
             (Some e, st) \<Rightarrow> (out st, Inl e)
           | (None, st) \<Rightarrow>
               let sorted_results = sort_reverse score (results st) in
               (out st @ [FoundCount (length (results st))]
                  @ rows (take 20 sorted_results),
                Inr sorted_results)))"

text \<open>Lines 243-249: the handler and the \<^verbatim>\<open>finally\<close> clause.\<close>

definition auto_scan_folder :: "world \<Rightarrow> path \<Rightarrow> real \<Rightarrow> event list \<times> (exn + match list)" where
  "auto_scan_folder W folder_path min_similarity =
     (case auto_scan_try W folder_path min_similarity of
        (evs, Inr r) \<Rightarrow> (evs @ [TitleDone], Inr r)
      | (evs, Inl e) \<Rightarrow>
          if e = KeyboardInterrupt then (evs @ [Interrupted, TitleDone], Inr [])
          else (evs @ [TitleDone], Inl e))"

subsection \<open>compare_image_with_folder\<close>

text \<open>Lines 105-112, the body of the \<^verbatim>\<open>try\<close> for one folder entry.\<close>

definition entry_body :: "world \<Rightarrow> ndarray \<Rightarrow> path \<Rightarrow> event list \<times> (exn + real)" where
  "entry_body W base_image_proc file_path =
     (case load_image W file_path False of
        (evs, Inl e) \<Rightarrow> (evs, Inl e)
      | (evs, Inr compare_img) \<Rightarrow>
          (case preprocess_image W compare_img default_size of
             Inl e \<Rightarrow> (evs, Inl e)
           | Inr compare_img_proc \<Rightarrow> (evs, try_compare W base_image_proc compare_img_proc)))"

text \<open>
  Lines 99-117. The bare \<^verbatim>\<open>except\<close> of line 116 swallows every exception, the
  interrupt too.
\<close>

fun folder_loop ::
  "world \<Rightarrow> path \<Rightarrow> path \<Rightarrow> real \<Rightarrow> ndarray \<Rightarrow> string list
     \<Rightarrow> (string \<times> real) list \<times> event list \<Rightarrow> (string \<times> real) list \<times> event list" where
  "folder_loop W base_image_path folder_path min_similarity base_image_proc [] acc = acc"
| "folder_loop W base_image_path folder_path min_similarity base_image_proc (filename # rest)
     (found, evs) =
     (let file_path = path_join folder_path filename in
      if abspath W file_path = abspath W base_image_path
      then folder_loop W base_image_path folder_path min_similarity base_image_proc rest
             (found, evs)
      else
        (case entry_body W base_image_proc file_path of
           (evs', Inr similarity) \<Rightarrow>
             if similarity \<ge> min_similarity
             then folder_loop W base_image_path folder_path min_similarity base_image_proc rest
                    (found @ [(filename, similarity)], evs @ evs' @ [Found filename similarity])
             else folder_loop W base_image_path folder_path min_similarity base_image_proc rest
                    (found, evs @ evs')
         | (evs', Inl e) \<Rightarrow>
             folder_loop W base_image_path folder_path min_similarity base_image_proc rest
               (found, evs @ evs')))"

definition result_rows :: "(string \<times> real) list \<Rightarrow> event list" where
  "result_rows xs = map (\<lambda>(filename, similarity). ResultRow filename similarity) xs"

text \<open>
  Lines 95-125. \<^verbatim>\<open>os.listdir\<close> raises when the folder is no directory; nothing catches
  that, nor a failure to load the base image.
\<close>

definition compare_image_with_folder ::
  "world \<Rightarrow> path \<Rightarrow> path \<Rightarrow> real \<Rightarrow> event list \<times> (exn + unit)" where
  "compare_image_with_folder W base_image_path folder_path min_similarity =
     (case load_image W base_image_path False of
        (evs, Inl e) \<Rightarrow> (evs, Inl e)
      | (evs, Inr base_image) \<Rightarrow>
          (case preprocess_image W base_image default_size of
             Inl e \<Rightarrow> (evs, Inl e)
           | Inr base_image_proc \<Rightarrow>
               if \<not> isdir W folder_path then (evs, Inl OSError)
               else
                 (case folder_loop W base_image_path folder_path min_similarity
                         base_image_proc (listdir W folder_path) ([], evs) of
                    (found, evs') \<Rightarrow>
                      if found \<noteq> []
                      then (evs' @ [ResultsHeader] @ result_rows (sort_reverse snd found),
                            Inr ())
                      else (evs' @ [NoMatches], Inr ()))))"

subsection \<open>Reading the console\<close>

fun row_of :: "event \<Rightarrow> match option" where
  "row_of (Row idx img1 img2 sim) = Some (img1, img2, sim)"
| "row_of _ = None"

definition shown_rows :: "event list \<Rightarrow> match list" where
  "shown_rows evs = List.map_filter row_of evs"

fun result_row_of :: "event \<Rightarrow> (string \<times> real) option" where
  "result_row_of (ResultRow filename similarity) = Some (filename, similarity)"
| "result_row_of _ = None"

definition shown_result_rows :: "event list \<Rightarrow> (string \<times> real) list" where
  "shown_result_rows evs = List.map_filter result_row_of evs"

fun totals_of :: "event \<Rightarrow> (nat \<times> nat) option" where
  "totals_of (PairProgress a b s cur tot) = Some (cur, tot)"
| "totals_of _ = None"

definition reported_progress :: "event list \<Rightarrow> (nat \<times> nat) list" where
  "reported_progress evs = List.map_filter totals_of evs"

text \<open>The matches in \<^verbatim>\<open>results\<close> when the two loops of a folder scan are left.\<close>

definition collected :: "world \<Rightarrow> path \<Rightarrow> real \<Rightarrow> match list" where
  "collected W folder_path min_similarity =
     results (snd (scan_loops W min_similarity (image_files_of W folder_path)))"

subsection \<open>The specification's vocabulary\<close>

text \<open>
  The pairs of the specification: \<open>(keys[i], keys[j])\<close> for \<open>0 \<le> i < j < n\<close>, in
  that order.
\<close>

definition spec_pairs :: "'a list \<Rightarrow> ('a \<times> 'a) list" where
  "spec_pairs keys =
     concat (map (\<lambda>i. map (\<lambda>j. (keys ! i, keys ! j)) [Suc i..<length keys])
                 [0..<length keys])"

text \<open>The entries of the cache, in the order of the file list.\<close>

definition cached :: "scan_state \<Rightarrow> path list \<Rightarrow> (path \<times> ndarray) list" where
  "cached st image_files =
     List.map_filter (\<lambda>p. map_option (Pair p) (processed_images st p)) image_files"

text \<open>Scoring a list of pairs one after the other, stopping at the first exception.\<close>

fun run_pairs ::
  "world \<Rightarrow> real \<Rightarrow> nat \<Rightarrow> ((path \<times> ndarray) \<times> (path \<times> ndarray)) list \<Rightarrow> scan_state
     \<Rightarrow> exn option \<times> scan_state" where
  "run_pairs W min_similarity total_pairs [] st = (None, st)"
| "run_pairs W min_similarity total_pairs (((p1, img1), (p2, img2)) # ps) st =
     (case pair_step W min_similarity total_pairs p1 img1 p2 img2 st of
        (Some e, st') \<Rightarrow> (Some e, st')
      | (None, st') \<Rightarrow> run_pairs W min_similarity total_pairs ps st')"

text \<open>
  The entries of a folder other than the base image, by absolute path, whose comparison
  with the base succeeded with a score of at least the threshold; in listing order.
\<close>

definition folder_matches ::
  "world \<Rightarrow> path \<Rightarrow> path \<Rightarrow> real \<Rightarrow> ndarray \<Rightarrow> string list \<Rightarrow> (string \<times> real) list" where
  "folder_matches W base_image_path folder_path min_similarity base_image_proc names =
     List.map_filter
       (\<lambda>filename.
          if abspath W (path_join folder_path filename) = abspath W base_image_path then None
          else (case snd (entry_body W base_image_proc (path_join folder_path filename)) of
                  Inr similarity \<Rightarrow>
                    if min_similarity \<le> similarity then Some (filename, similarity) else None
                | Inl e \<Rightarrow> None))
       names"

text \<open>The local variables with only the matches of score at least \<open>t\<close> kept.\<close>

definition keep_above :: "real \<Rightarrow> scan_state \<Rightarrow> scan_state" where
  "keep_above t st = st\<lparr>results := filter (\<lambda>m. t \<le> score m) (results st)\<rparr>"

text \<open>A world in which no call is interrupted by the operator.\<close>

definition never_interrupted :: "world \<Rightarrow> bool" where
  "never_interrupted W =
     ((\<forall>p. read_file W p \<noteq> Inl KeyboardInterrupt) \<and>
      (\<forall>b. imdecode W b \<noteq> Inl KeyboardInterrupt) \<and>
      (\<forall>a b. ssim W a b \<noteq> Inl KeyboardInterrupt))"

subsection \<open>A small world to run the program in\<close>

text \<open>
  One folder \<open>d\<close>; a file's bytes are one number, and \<open>0\<close> is no image. The metric
  refuses two arrays of different shapes, as \<^verbatim>\<open>structural_similarity\<close> does. Arrays
  with element \<open>7\<close> are those during whose comparison the operator interrupts, arrays
  with element \<open>8\<close> make the metric fail.
\<close>

definition demo_files :: "(string \<times> nat) list" where
  "demo_files =
     [(''a.png'', 1), (''b.png'', 1), (''c.JPG'', 2), (''bad.png'', 0),
      (''k.png'', 7), (''v.png'', 8), (''copy.tif'', 1), (''notes.txt'', 0)]"

definition demo :: "bool \<Rightarrow> string list \<Rightarrow> world" where
  "demo bar names =
     \<lparr>tqdm = bar,
      isdir = (\<lambda>p. p = ''d''),
      listdir = (\<lambda>p. names),
      abspath = (\<lambda>p. if p \<noteq> [] \<and> hd p = CHR ''/'' then p else ''/home/'' @ p),
      read_file = (\<lambda>p. case map_of demo_files (basename p) of
                           None \<Rightarrow> Inl OSError | Some n \<Rightarrow> Inr [n]),
      imdecode = (\<lambda>bs. if bs = [0] then Inr None
                        else Inr (Some \<lparr>shape = [40, 60, 3], pixels = bs\<rparr>)),
      resize_data = (\<lambda>a dsize. pixels a),
      gray_data = (\<lambda>a. pixels a),
      ssim = (\<lambda>a b. if shape a \<noteq> shape b then Inl ValueError
                     else if pixels a = [7] \<or> pixels b = [7] then Inl KeyboardInterrupt
                     else if pixels a = [8] \<or> pixels b = [8] then Inl ValueError
                     else Inr (if pixels a = pixels b then 1 else 0))\<rparr>"

text \<open>The same world with an operator who never interrupts.\<close>

definition demo_quiet :: "bool \<Rightarrow> string list \<Rightarrow> world" where
  "demo_quiet bar names =
     (demo bar names)
       \<lparr>ssim := (\<lambda>a b. if shape a \<noteq> shape b \<or> pixels a = [8] \<or> pixels b = [8]
                        then Inl ValueError
                        else Inr (if pixels a = pixels b then 1 else 0))\<rparr>"

section \<open>Properties\<close>

subsection \<open>The sort is a stable descending sort\<close>

lemma mset_insort_reverse: "mset (insort_reverse k x xs) = add_mset x (mset xs)"
  by (induction xs) auto

lemma mset_sort_reverse: "mset (sort_reverse k xs) = mset xs"
  unfolding sort_reverse_def by (induction xs) (auto simp: mset_insort_reverse)

lemma set_insort_reverse: "set (insort_reverse k x xs) = insert x (set xs)"
  by (induction xs) auto

lemma length_sort_reverse: "length (sort_reverse k xs) = length xs"
  using mset_sort_reverse [of k xs] by (metis size_mset)

lemma sorted_insort_reverse:
  "sorted_wrt (\<lambda>a b. k b \<le> k a) xs \<Longrightarrow> sorted_wrt (\<lambda>a b. k b \<le> k a) (insort_reverse k x xs)"
  by (induction xs) (auto simp: set_insort_reverse)

lemma sorted_sort_reverse: "sorted_wrt (\<lambda>a b. k b \<le> k a) (sort_reverse k xs)"
  unfolding sort_reverse_def by (induction xs) (auto simp: sorted_insort_reverse)

lemma filter_insort_reverse_out:
  "\<not> P x \<Longrightarrow> filter P (insort_reverse k x xs) = filter P xs"
  by (induction xs) auto

lemma filter_insort_reverse_eq:
  "sorted_wrt (\<lambda>a b. k b \<le> k a) xs \<Longrightarrow>
   filter (\<lambda>y. k y = k x) (insort_reverse k x xs) = x # filter (\<lambda>y. k y = k x) xs"
proof (induction xs)
  case Nil
  then show ?case by simp
next
  case (Cons y ys)
  show ?case
  proof (cases "k x < k y")
    case True
    with Cons show ?thesis by auto
  next
    case False
    then show ?thesis by simp
  qed
qed

lemma sort_reverse_stable:
  "filter (\<lambda>y. k y = c) (sort_reverse k xs) = filter (\<lambda>y. k y = c) xs"
proof (induction xs)
  case Nil
  then show ?case by (simp add: sort_reverse_def)
next
  case (Cons x xs)
  have s: "sorted_wrt (\<lambda>a b. k b \<le> k a) (foldr (insort_reverse k) xs [])"
    using sorted_sort_reverse [of k xs] by (simp add: sort_reverse_def)
  show ?case
  proof (cases "k x = c")
    case True
    with Cons s filter_insort_reverse_eq [of k "foldr (insort_reverse k) xs []" x]
    show ?thesis by (simp add: sort_reverse_def)
  next
    case False
    with Cons show ?thesis by (simp add: sort_reverse_def filter_insort_reverse_out)
  qed
qed

subsection \<open>What the load phase stores\<close>

lemma preprocess_image_shape:
  "preprocess_image W img default_size = Inr a \<Longrightarrow> shape a = [300, 300]"
  by (auto simp: preprocess_image_def cv2_resize_def cv2_cvtColor_BGR2GRAY_def default_size_def
      split: option.splits if_splits sum.splits)

lemma load_body_shape: "load_body W p = (evs, Inr a) \<Longrightarrow> shape a = [300, 300]"
  by (auto simp: load_body_def preprocess_image_shape split: prod.splits sum.splits)

lemma load_loop_entries:
  assumes "\<forall>p a. processed_images st p = Some a \<longrightarrow> (\<exists>evs. load_body W p = (evs, Inr a))"
  shows "\<forall>p a. processed_images (snd (load_loop W files st)) p = Some a
           \<longrightarrow> (\<exists>evs. load_body W p = (evs, Inr a))"
  using assms
proof (induction files arbitrary: st)
  case Nil
  then show ?case by simp
next
  case (Cons q rest)
  obtain evs r where lb: "load_body W q = (evs, r)"
    by (cases "load_body W q")
  show ?case
  proof (cases r)
    case (Inl e)
    have "\<forall>p a. processed_images (say es st) p = Some a
            \<longrightarrow> (\<exists>evs. load_body W p = (evs, Inr a))" for es
      using Cons.prems by (simp add: say_def)
    then have "\<forall>p a. processed_images (snd (load_loop W rest (say es st))) p = Some a
            \<longrightarrow> (\<exists>evs. load_body W p = (evs, Inr a))" for es
      by (rule Cons.IH)
    then show ?thesis using lb Inl Cons.prems by (simp add: say_def)
  next
    case (Inr a)
    have "\<forall>p b. processed_images ((say evs st)\<lparr>processed_images := (processed_images st)(q \<mapsto> a)\<rparr>) p
                  = Some b \<longrightarrow> (\<exists>evs. load_body W p = (evs, Inr b))"
      using Cons.prems lb Inr by auto
    then have "\<forall>p b. processed_images (snd (load_loop W rest
                  ((say evs st)\<lparr>processed_images := (processed_images st)(q \<mapsto> a)\<rparr>))) p
                  = Some b \<longrightarrow> (\<exists>evs. load_body W p = (evs, Inr b))"
      by (rule Cons.IH)
    then show ?thesis using lb Inr by simp
  qed
qed

lemma load_loop_init_entries:
  "processed_images (snd (load_loop W files init_state)) p = Some a
     \<Longrightarrow> \<exists>evs. load_body W p = (evs, Inr a)"
  using load_loop_entries [of init_state W files] by (simp add: init_state_def)

lemma reconcile_same_shape: "shape a = shape b \<Longrightarrow> reconcile W a b = Inr b"
  by (simp add: reconcile_def)

subsection \<open>The cache is only read\<close>

lemma progress_update_cache:
  "processed_images (snd (progress_update W tp p1 p2 s st)) = processed_images st"
  by (simp add: progress_update_def Let_def say_def)

lemma pair_step_cache:
  "processed_images (snd (pair_step W t tp p1 a p2 b st)) = processed_images st"
  by (simp add: pair_step_def progress_update_cache say_def split: sum.splits)

lemma inner_loop_cache:
  "processed_images (snd (inner_loop W t tp p1 a rest st)) = processed_images st"
proof (induction rest arbitrary: st)
  case Nil
  then show ?case by simp
next
  case (Cons p2 rest)
  show ?case
  proof (cases "processed_images st p2")
    case None
    with Cons show ?thesis by simp
  next
    case (Some b)
    obtain r st' where ps: "pair_step W t tp p1 a p2 b st = (r, st')"
      by (cases "pair_step W t tp p1 a p2 b st")
    have c: "processed_images st' = processed_images st"
      using pair_step_cache [of W t tp p1 a p2 b st] ps by simp
    show ?thesis using Some ps c Cons [of st'] by (cases r) simp_all
  qed
qed

lemma outer_loop_cache:
  "processed_images (snd (outer_loop W t tp files st)) = processed_images st"
proof (induction files arbitrary: st)
  case Nil
  then show ?case by simp
next
  case (Cons p1 rest)
  show ?case
  proof (cases "processed_images st p1")
    case None
    with Cons show ?thesis by simp
  next
    case (Some a)
    obtain r st' where il: "inner_loop W t tp p1 a rest st = (r, st')"
      by (cases "inner_loop W t tp p1 a rest st")
    have c: "processed_images st' = processed_images st"
      using inner_loop_cache [of W t tp p1 a rest st] il by simp
    show ?thesis using Some il c Cons [of st'] by (cases r) simp_all
  qed
qed

subsection \<open>The cache holds 300 by 300 grey images\<close>

text \<open>
  C10. Every image in the cache of a folder scan is what \<open>preprocess_image\<close> made,
  at the default size, of the image loaded from its path; it is a 300 by 300 array of
  two dimensions. So two cache entries have the same shape, the reconciliation of
  lines 194-195 hands the second one on as it is, and the metric is called on arrays
  of equal shape.
\<close>

theorem cache_entries_300x300:
  assumes "processed_images (snd (load_loop W image_files init_state)) p1 = Some a"
      and "processed_images (snd (load_loop W image_files init_state)) p2 = Some b"
  shows "(\<exists>evs img. load_image W p1 (\<not> tqdm W) = (evs, Inr img)
            \<and> preprocess_image W img default_size = Inr a)
       \<and> shape a = [300, 300] \<and> shape b = shape a
       \<and> reconcile W a b = Inr b
       \<and> try_compare W a b = compare_images W a b"
proof -
  obtain ea where la: "load_body W p1 = (ea, Inr a)"
    using load_loop_init_entries [OF assms(1)] by blast
  obtain eb where lb: "load_body W p2 = (eb, Inr b)"
    using load_loop_init_entries [OF assms(2)] by blast
  have sa: "shape a = [300, 300]" and sb: "shape b = [300, 300]"
    using la lb by (auto dest: load_body_shape)
  have "\<exists>evs img. load_image W p1 (\<not> tqdm W) = (evs, Inr img)
            \<and> preprocess_image W img default_size = Inr a"
    using la by (auto simp: load_body_def split: prod.splits sum.splits)
  moreover have "reconcile W a b = Inr b"
    using sa sb by (simp add: reconcile_same_shape)
  ultimately show ?thesis using sa sb by (simp add: try_compare_def)
qed

theorem cache_entries_300x300_witness:
  "processed_images (snd (load_loop (demo True []) [''d/a.png'', ''d/c.JPG''] init_state)) ''d/a.png''
     = Some \<lparr>shape = [300, 300], pixels = [1]\<rparr>
   \<and> processed_images (snd (load_loop (demo True []) [''d/a.png'', ''d/c.JPG''] init_state)) ''d/c.JPG''
     = Some \<lparr>shape = [300, 300], pixels = [2]\<rparr>
   \<and> reconcile (demo True []) \<lparr>shape = [300, 300], pixels = [1]\<rparr> \<lparr>shape = [300, 300], pixels = [2]\<rparr>
     = Inr \<lparr>shape = [300, 300], pixels = [2]\<rparr>"
proof -
  have h1: "processed_images (snd (load_loop (demo True []) [''d/a.png'', ''d/c.JPG''] init_state)) ''d/a.png''
     = Some \<lparr>shape = [300, 300], pixels = [1]\<rparr>"
    by code_simp
  have h2: "processed_images (snd (load_loop (demo True []) [''d/a.png'', ''d/c.JPG''] init_state)) ''d/c.JPG''
     = Some \<lparr>shape = [300, 300], pixels = [2]\<rparr>"
    by code_simp
  show ?thesis using cache_entries_300x300 [OF h1 h2] h1 h2 by simp
qed

subsection \<open>Without the progress bar the scan raises\<close>

text \<open>
  C3. A folder of two readable images, scanned without the progress-bar library: the
  metric succeeds on the one pair, and \<open>auto_scan_folder\<close> raises
  \<^verbatim>\<open>UnboundLocalError\<close> from line 220.
\<close>

theorem no_progress_bar_scan_raises:
  "snd (auto_scan_folder (demo False [''a.png'', ''b.png'']) ''d'' 80) = Inl UnboundLocalError
   \<and> try_compare (demo False [''a.png'', ''b.png''])
        \<lparr>shape = [300, 300], pixels = [1]\<rparr> \<lparr>shape = [300, 300], pixels = [1]\<rparr> = Inr 100"
  by code_simp

subsection \<open>What the console shows\<close>

lemma shown_rows_append: "shown_rows (xs @ ys) = shown_rows xs @ shown_rows ys"
  by (simp add: shown_rows_def map_filter_def)

lemma shown_rows_Nil: "shown_rows [] = []"
  by (simp add: shown_rows_def map_filter_def)

lemma shown_rows_Cons:
  "shown_rows (e # es) = (case row_of e of None \<Rightarrow> shown_rows es | Some m \<Rightarrow> m # shown_rows es)"
  by (simp add: shown_rows_def map_filter_def split: option.splits)

lemma shown_rows_enumerate:
  "List.map_filter row_of (map (\<lambda>(idx, (img1, img2, sim)). Row idx img1 img2 sim) (enumerate n xs)) = xs"
  by (induction xs arbitrary: n) (auto simp: map_filter_def)

lemma shown_rows_rows: "shown_rows (rows xs) = xs"
  by (simp add: shown_rows_def rows_def shown_rows_enumerate)

lemma load_image_no_rows: "shown_rows (fst (load_image W p v)) = []"
  by (simp add: load_image_def load_except_def shown_rows_def map_filter_def Let_def
      split: sum.splits)

lemma load_body_no_rows: "shown_rows (fst (load_body W p)) = []"
  using load_image_no_rows [of W p "\<not> tqdm W"]
  by (auto simp: load_body_def split: prod.splits sum.splits)

lemma shown_rows_say: "shown_rows (out (say evs st)) = shown_rows (out st) @ shown_rows evs"
  by (simp add: say_def shown_rows_append)

lemma load_loop_no_rows:
  "shown_rows (out (snd (load_loop W files st))) = shown_rows (out st)"
proof (induction files arbitrary: st)
  case Nil
  then show ?case by simp
next
  case (Cons p rest)
  obtain evs r where lb: "load_body W p = (evs, r)"
    by (cases "load_body W p")
  have nr: "shown_rows evs = []"
    using load_body_no_rows [of W p] lb by simp
  show ?case
  proof (cases r)
    case (Inl e)
    show ?thesis
      using lb Inl nr Cons [of "say (evs @ [PreprocessFailed (basename p) e]) st"]
      by (simp add: shown_rows_say) (simp add: shown_rows_def map_filter_def)
  next
    case (Inr a)
    show ?thesis
      using lb Inr nr
        Cons [of "(say evs st)\<lparr>processed_images := (processed_images st)(p \<mapsto> a)\<rparr>"]
      by (simp add: say_def shown_rows_append)
  qed
qed

lemma progress_update_no_rows:
  "shown_rows (out (snd (progress_update W tp p1 p2 s st))) = shown_rows (out st)"
  by (simp add: progress_update_def Let_def say_def shown_rows_def map_filter_def)

lemma pair_step_no_rows:
  "shown_rows (out (snd (pair_step W t tp p1 a p2 b st))) = shown_rows (out st)"
  by (simp add: pair_step_def progress_update_no_rows split: sum.splits)
     (simp add: say_def shown_rows_def map_filter_def)

lemma inner_loop_no_rows:
  "shown_rows (out (snd (inner_loop W t tp p1 a rest st))) = shown_rows (out st)"
proof (induction rest arbitrary: st)
  case Nil
  then show ?case by simp
next
  case (Cons p2 rest)
  show ?case
  proof (cases "processed_images st p2")
    case None
    with Cons show ?thesis by simp
  next
    case (Some b)
    obtain r st' where ps: "pair_step W t tp p1 a p2 b st = (r, st')"
      by (cases "pair_step W t tp p1 a p2 b st")
    have c: "shown_rows (out st') = shown_rows (out st)"
      using pair_step_no_rows [of W t tp p1 a p2 b st] ps by simp
    show ?thesis using Some ps c Cons [of st'] by (cases r) simp_all
  qed
qed

lemma outer_loop_no_rows:
  "shown_rows (out (snd (outer_loop W t tp files st))) = shown_rows (out st)"
proof (induction files arbitrary: st)
  case Nil
  then show ?case by simp
next
  case (Cons p1 rest)
  show ?case
  proof (cases "processed_images st p1")
    case None
    with Cons show ?thesis by simp
  next
    case (Some a)
    obtain r st' where il: "inner_loop W t tp p1 a rest st = (r, st')"
      by (cases "inner_loop W t tp p1 a rest st")
    have c: "shown_rows (out st') = shown_rows (out st)"
      using inner_loop_no_rows [of W t tp p1 a rest st] il by simp
    show ?thesis using Some il c Cons [of st'] by (cases r) simp_all
  qed
qed

lemma scan_loops_no_rows: "shown_rows (out (snd (scan_loops W t files))) = []"
proof -
  obtain r st where ll: "load_loop W files init_state = (r, st)"
    by (cases "load_loop W files init_state")
  have a: "shown_rows (out st) = []"
    using load_loop_no_rows [of W files init_state] ll
    by (simp add: init_state_def shown_rows_def map_filter_def)
  show ?thesis
    using ll a outer_loop_no_rows [of W t "comb (length files) 2" files st]
    by (cases r) (simp_all add: scan_loops_def)
qed

lemma auto_scan_folder_completed:
  assumes "isdir W folder_path" and "2 \<le> length (image_files_of W folder_path)"
      and "fst (scan_loops W t (image_files_of W folder_path)) = None"
  shows "auto_scan_folder W folder_path t =
           (out (snd (scan_loops W t (image_files_of W folder_path)))
              @ [FoundCount (length (collected W folder_path t))]
              @ rows (take 20 (sort_reverse score (collected W folder_path t)))
              @ [TitleDone],
            Inr (sort_reverse score (collected W folder_path t)))"
  using assms
  by (cases "scan_loops W t (image_files_of W folder_path)")
     (simp add: auto_scan_folder_def auto_scan_try_def collected_def Let_def)

subsection \<open>The report of a completed scan\<close>

text \<open>
  C5. When the loops of a folder scan complete, \<open>auto_scan_folder\<close> returns the
  collected matches sorted by score, highest first: the same matches, each as often
  as collected, and those of equal score in the order in which the pair enumeration
  produced them. The rows printed are the first 20 of that sequence.
\<close>

theorem results_sorted_and_top20_shown:
  assumes "isdir W folder_path" and "2 \<le> length (image_files_of W folder_path)"
      and "fst (scan_loops W min_similarity (image_files_of W folder_path)) = None"
  shows "snd (auto_scan_folder W folder_path min_similarity)
           = Inr (sort_reverse score (collected W folder_path min_similarity))
       \<and> sorted_wrt (\<lambda>a b. score b \<le> score a)
           (sort_reverse score (collected W folder_path min_similarity))
       \<and> mset (sort_reverse score (collected W folder_path min_similarity))
           = mset (collected W folder_path min_similarity)
       \<and> (\<forall>c. filter (\<lambda>m. score m = c)
                 (sort_reverse score (collected W folder_path min_similarity))
               = filter (\<lambda>m. score m = c) (collected W folder_path min_similarity))
       \<and> shown_rows (fst (auto_scan_folder W folder_path min_similarity))
           = take 20 (sort_reverse score (collected W folder_path min_similarity))"
proof -
  have "shown_rows (fst (auto_scan_folder W folder_path min_similarity))
           = take 20 (sort_reverse score (collected W folder_path min_similarity))"
    using auto_scan_folder_completed [OF assms]
    by (simp add: shown_rows_append shown_rows_rows scan_loops_no_rows shown_rows_Cons
        shown_rows_Nil)
  then show ?thesis
    using auto_scan_folder_completed [OF assms]
    by (simp add: sorted_sort_reverse mset_sort_reverse sort_reverse_stable)
qed

theorem results_sorted_and_top20_shown_witness:
  "collected (demo True [''c.JPG'', ''a.png'', ''b.png'']) ''d'' 0
     = [(''c.JPG'', ''a.png'', 0), (''c.JPG'', ''b.png'', 0), (''a.png'', ''b.png'', 100)]
   \<and> snd (auto_scan_folder (demo True [''c.JPG'', ''a.png'', ''b.png'']) ''d'' 0)
     = Inr [(''a.png'', ''b.png'', 100), (''c.JPG'', ''a.png'', 0), (''c.JPG'', ''b.png'', 0)]
   \<and> shown_rows (fst (auto_scan_folder (demo True [''c.JPG'', ''a.png'', ''b.png'']) ''d'' 0))
     = [(''a.png'', ''b.png'', 100), (''c.JPG'', ''a.png'', 0), (''c.JPG'', ''b.png'', 0)]"
proof -
  have h1: "isdir (demo True [''c.JPG'', ''a.png'', ''b.png'']) ''d''"
    by (simp add: demo_def)
  have h2: "2 \<le> length (image_files_of (demo True [''c.JPG'', ''a.png'', ''b.png'']) ''d'')"
    by code_simp
  have h3: "fst (scan_loops (demo True [''c.JPG'', ''a.png'', ''b.png'']) 0
                  (image_files_of (demo True [''c.JPG'', ''a.png'', ''b.png'']) ''d'')) = None"
    by code_simp
  have c: "collected (demo True [''c.JPG'', ''a.png'', ''b.png'']) ''d'' 0
     = [(''c.JPG'', ''a.png'', 0), (''c.JPG'', ''b.png'', 0), (''a.png'', ''b.png'', 100)]"
    by code_simp
  show ?thesis
    using results_sorted_and_top20_shown [OF h1 h2 h3] c
    by (simp add: sort_reverse_def score_def)
qed

subsection \<open>An interrupted scan\<close>

text \<open>
  C2, as stated, fails: four files, the operator interrupts during the second pair;
  the first pair had matched and is in \<^verbatim>\<open>results\<close>, and the call returns the empty
  list.
\<close>

theorem interrupted_scan_drops_matches:
  "fst (scan_loops (demo True [''a.png'', ''b.png'', ''k.png'', ''c.JPG'']) 80
         (image_files_of (demo True [''a.png'', ''b.png'', ''k.png'', ''c.JPG'']) ''d''))
     = Some KeyboardInterrupt
   \<and> collected (demo True [''a.png'', ''b.png'', ''k.png'', ''c.JPG'']) ''d'' 80
     = [(''a.png'', ''b.png'', 100)]
   \<and> snd (auto_scan_folder (demo True [''a.png'', ''b.png'', ''k.png'', ''c.JPG'']) ''d'' 80)
     = Inr []"
  by code_simp

text \<open>
  C2, amended. \<open>auto_scan_folder\<close> never raises the operator's interrupt. When the
  interrupt leaves the loops of a scan, the call prints the notice of line 244, restores
  the title and returns the empty list, whatever had been collected.
\<close>

theorem interrupted_scan_returns_empty:
  "snd (auto_scan_folder W folder_path min_similarity) \<noteq> Inl KeyboardInterrupt
   \<and> (isdir W folder_path \<and> 2 \<le> length (image_files_of W folder_path)
        \<and> fst (scan_loops W min_similarity (image_files_of W folder_path))
            = Some KeyboardInterrupt
      \<longrightarrow> auto_scan_folder W folder_path min_similarity
            = (out (snd (scan_loops W min_similarity (image_files_of W folder_path)))
                 @ [Interrupted, TitleDone], Inr []))"
  by (cases "scan_loops W min_similarity (image_files_of W folder_path)")
     (auto simp: auto_scan_folder_def auto_scan_try_def Let_def split: option.splits)

theorem interrupted_scan_returns_empty_witness:
  "isdir (demo True [''a.png'', ''b.png'', ''k.png'', ''c.JPG'']) ''d''
   \<and> snd (auto_scan_folder (demo True [''a.png'', ''b.png'', ''k.png'', ''c.JPG'']) ''d'' 80)
     = Inr []"
proof -
  have h1: "isdir (demo True [''a.png'', ''b.png'', ''k.png'', ''c.JPG'']) ''d''"
    by (simp add: demo_def)
  have h2: "2 \<le> length (image_files_of (demo True [''a.png'', ''b.png'', ''k.png'', ''c.JPG'']) ''d'')"
    by code_simp
  have h3: "fst (scan_loops (demo True [''a.png'', ''b.png'', ''k.png'', ''c.JPG'']) 80
         (image_files_of (demo True [''a.png'', ''b.png'', ''k.png'', ''c.JPG'']) ''d''))
     = Some KeyboardInterrupt"
    by code_simp
  show ?thesis
    using interrupted_scan_returns_empty [of "demo True [''a.png'', ''b.png'', ''k.png'', ''c.JPG'']"
        "''d''" 80] h1 h2 h3
    by simp
qed

subsection \<open>The threshold\<close>

lemma load_loop_results: "results (snd (load_loop W files st)) = results st"
proof (induction files arbitrary: st)
  case Nil
  then show ?case by simp
next
  case (Cons p rest)
  obtain evs r where lb: "load_body W p = (evs, r)"
    by (cases "load_body W p")
  show ?case
  proof (cases r)
    case (Inl e)
    show ?thesis
      using lb Inl Cons [of "say (evs @ [PreprocessFailed (basename p) e]) st"]
      by (simp add: say_def)
  next
    case (Inr a)
    show ?thesis
      using lb Inr
        Cons [of "(say evs st)\<lparr>processed_images := (processed_images st)(p \<mapsto> a)\<rparr>"]
      by (simp add: say_def)
  qed
qed

lemma keep_above_no_results: "results st = [] \<Longrightarrow> keep_above t st = st"
  by (simp add: keep_above_def)

lemma keep_above_fields:
  "processed_images (keep_above t st) = processed_images st"
  "current_pair (keep_above t st) = current_pair st"
  "out (keep_above t st) = out st"
  "results (keep_above t st) = filter (\<lambda>m. t \<le> score m) (results st)"
  by (simp_all add: keep_above_def)

lemma progress_update_keep_above:
  "progress_update W tp p1 p2 s (keep_above t st)
     = apsnd (keep_above t) (progress_update W tp p1 p2 s st)"
  by (simp add: progress_update_def keep_above_def say_def Let_def)

lemma pair_step_results:
  "results (snd (pair_step W t tp p1 a p2 b st)) =
     (case try_compare W a b of
        Inr s \<Rightarrow> if t \<le> s then results st @ [(basename p1, basename p2, s)] else results st
      | Inl e \<Rightarrow> results st)"
  by (simp add: pair_step_def progress_update_def say_def Let_def split: sum.splits)

lemma pair_step_keep_above:
  assumes "t1 \<le> t2"
  shows "pair_step W t2 tp p1 a p2 b (keep_above t2 st)
           = apsnd (keep_above t2) (pair_step W t1 tp p1 a p2 b st)"
proof (cases "try_compare W a b")
  case (Inl e)
  have "say [CompareFailed e] (keep_above t2 st) = keep_above t2 (say [CompareFailed e] st)"
    by (simp add: say_def keep_above_def)
  then show ?thesis
    using Inl by (simp add: pair_step_def progress_update_keep_above)
next
  case (Inr s)
  have a: "keep_above t2 st\<lparr>results := results (keep_above t2 st) @ [(basename p1, basename p2, s)]\<rparr>
        = keep_above t2 (st\<lparr>results := results st @ [(basename p1, basename p2, s)]\<rparr>)"
    if "t2 \<le> s"
    using that by (simp add: keep_above_def score_def)
  have b: "keep_above t2 st
        = keep_above t2 (st\<lparr>results := results st @ [(basename p1, basename p2, s)]\<rparr>)"
    if "\<not> t2 \<le> s"
    using that by (simp add: keep_above_def score_def)
  show ?thesis
  proof (cases "t2 \<le> s")
    case True
    then have "t1 \<le> s" using assms by simp
    with True Inr a show ?thesis
      by (simp add: pair_step_def progress_update_keep_above)
  next
    case False
    show ?thesis
    proof (cases "t1 \<le> s")
      case True
      with False Inr b show ?thesis
        by (simp add: pair_step_def progress_update_keep_above)
    next
      case f1: False
      with False Inr show ?thesis
        by (simp add: pair_step_def progress_update_keep_above)
    qed
  qed
qed

lemma inner_loop_keep_above:
  assumes "t1 \<le> t2"
  shows "inner_loop W t2 tp p1 a rest (keep_above t2 st)
           = apsnd (keep_above t2) (inner_loop W t1 tp p1 a rest st)"
proof (induction rest arbitrary: st)
  case Nil
  then show ?case by simp
next
  case (Cons p2 rest)
  show ?case
  proof (cases "processed_images st p2")
    case None
    with Cons show ?thesis by (simp add: keep_above_fields)
  next
    case (Some b)
    obtain r st' where ps: "pair_step W t1 tp p1 a p2 b st = (r, st')"
      by (cases "pair_step W t1 tp p1 a p2 b st")
    have ps2: "pair_step W t2 tp p1 a p2 b (keep_above t2 st) = (r, keep_above t2 st')"
      using pair_step_keep_above [OF assms, of W tp p1 a p2 b st] ps by simp
    show ?thesis using Some ps ps2 Cons [of st']
      by (cases r) (simp_all add: keep_above_fields)
  qed
qed

lemma outer_loop_keep_above:
  assumes "t1 \<le> t2"
  shows "outer_loop W t2 tp files (keep_above t2 st)
           = apsnd (keep_above t2) (outer_loop W t1 tp files st)"
proof (induction files arbitrary: st)
  case Nil
  then show ?case by simp
next
  case (Cons p1 rest)
  show ?case
  proof (cases "processed_images st p1")
    case None
    with Cons show ?thesis by (simp add: keep_above_fields)
  next
    case (Some a)
    obtain r st' where il: "inner_loop W t1 tp p1 a rest st = (r, st')"
      by (cases "inner_loop W t1 tp p1 a rest st")
    have il2: "inner_loop W t2 tp p1 a rest (keep_above t2 st) = (r, keep_above t2 st')"
      using inner_loop_keep_above [OF assms, of W tp p1 a rest st] il by simp
    show ?thesis using Some il il2 Cons [of st']
      by (cases r) (simp_all add: keep_above_fields)
  qed
qed

lemma scan_loops_keep_above:
  assumes "t1 \<le> t2"
  shows "scan_loops W t2 files = apsnd (keep_above t2) (scan_loops W t1 files)"
proof -
  obtain r st where ll: "load_loop W files init_state = (r, st)"
    by (cases "load_loop W files init_state")
  have "results st = []"
    using load_loop_results [of W files init_state] ll by (simp add: init_state_def)
  then have k: "keep_above t2 st = st"
    by (rule keep_above_no_results)
  show ?thesis
  proof (cases r)
    case None
    then show ?thesis
      using ll k outer_loop_keep_above [OF assms, of W "comb (length files) 2" files st]
      by (simp add: scan_loops_def)
  next
    case (Some e)
    then show ?thesis using ll k by (simp add: scan_loops_def)
  qed
qed

lemma collected_keep_above:
  "t1 \<le> t2 \<Longrightarrow> collected W f t2 = filter (\<lambda>m. t2 \<le> score m) (collected W f t1)"
  using scan_loops_keep_above [of t1 t2 W "image_files_of W f"]
  by (simp add: collected_def keep_above_fields)

lemma scan_loops_exit_same:
  "fst (scan_loops W t2 files) = fst (scan_loops W t1 files)"
proof (cases "t1 \<le> t2")
  case True
  then show ?thesis using scan_loops_keep_above [of t1 t2 W files] by simp
next
  case False
  then have "t2 \<le> t1" by simp
  then show ?thesis using scan_loops_keep_above [of t2 t1 W files] by simp
qed

lemma auto_scan_folder_result:
  "snd (auto_scan_folder W f t) =
     (if \<not> isdir W f \<or> length (image_files_of W f) < 2 then Inr []
      else case fst (scan_loops W t (image_files_of W f)) of
             None \<Rightarrow> Inr (sort_reverse score (collected W f t))
           | Some e \<Rightarrow> if e = KeyboardInterrupt then Inr [] else Inl e)"
  by (cases "scan_loops W t (image_files_of W f)")
     (auto simp: auto_scan_folder_def auto_scan_try_def collected_def Let_def
           split: option.splits)

text \<open>
  C4. A scored pair adds its match to \<^verbatim>\<open>results\<close> exactly when its percentage is at
  least the threshold, and a pair whose scoring failed adds nothing. Over a whole folder
  scan every collected match has a score of at least the threshold; with a higher
  threshold the collected matches are those of the lower one that reach the higher, so
  there are no more of them, and the list returned is no longer.
\<close>

theorem threshold_inclusive_and_monotone:
  "(\<forall>s. try_compare W img1 img2 = Inr s \<longrightarrow>
      results (snd (pair_step W t tp p1 img1 p2 img2 st))
        = (if t \<le> s then results st @ [(basename p1, basename p2, s)] else results st))
   \<and> (\<forall>e. try_compare W img1 img2 = Inl e \<longrightarrow>
      results (snd (pair_step W t tp p1 img1 p2 img2 st)) = results st)
   \<and> (\<forall>m \<in> set (collected W folder_path t). t \<le> score m)
   \<and> (t1 \<le> t2 \<longrightarrow>
        collected W folder_path t2
          = filter (\<lambda>m. t2 \<le> score m) (collected W folder_path t1)
        \<and> length (collected W folder_path t2) \<le> length (collected W folder_path t1)
        \<and> (\<forall>r1 r2. snd (auto_scan_folder W folder_path t1) = Inr r1
                  \<and> snd (auto_scan_folder W folder_path t2) = Inr r2
              \<longrightarrow> length r2 \<le> length r1))"
proof -
  have a: "\<forall>m \<in> set (collected W folder_path t). t \<le> score m"
  proof
    fix m assume "m \<in> set (collected W folder_path t)"
    then have "m \<in> set (filter (\<lambda>m. t \<le> score m) (collected W folder_path t))"
      using collected_keep_above [of t t W folder_path] by simp
    then show "t \<le> score m" by simp
  qed
  have b: "length (collected W folder_path t2) \<le> length (collected W folder_path t1)"
    if "t1 \<le> t2"
    using collected_keep_above [OF that, of W folder_path] by simp
  have c: "length r2 \<le> length r1"
    if le: "t1 \<le> t2"
      and r1: "snd (auto_scan_folder W folder_path t1) = Inr r1"
      and r2: "snd (auto_scan_folder W folder_path t2) = Inr r2" for r1 r2
  proof -
    have ex: "fst (scan_loops W t2 (image_files_of W folder_path))
                = fst (scan_loops W t1 (image_files_of W folder_path))"
      by (rule scan_loops_exit_same)
    show ?thesis
      using r1 r2 ex b [OF le]
      by (auto simp: auto_scan_folder_result length_sort_reverse
               split: if_splits option.splits)
  qed
  show ?thesis
    using a b c collected_keep_above [of t1 t2 W folder_path]
    by (simp add: pair_step_results)
qed

theorem threshold_inclusive_and_monotone_witness:
  "try_compare (demo True [''a.png'', ''b.png'', ''c.JPG'']) \<lparr>shape = [300, 300], pixels = [1]\<rparr>
       \<lparr>shape = [300, 300], pixels = [1]\<rparr> = Inr 100
   \<and> results (snd (pair_step (demo True [''a.png'', ''b.png'', ''c.JPG'']) 100 1 ''d/a.png''
        \<lparr>shape = [300, 300], pixels = [1]\<rparr>
        ''d/b.png'' \<lparr>shape = [300, 300], pixels = [1]\<rparr> init_state))
       = [(''a.png'', ''b.png'', 100)]
   \<and> (0::real) \<le> 80
   \<and> length (collected (demo True [''a.png'', ''b.png'', ''c.JPG'']) ''d'' 0) = 3
   \<and> length (collected (demo True [''a.png'', ''b.png'', ''c.JPG'']) ''d'' 80) = 1
   \<and> collected (demo True [''a.png'', ''b.png'', ''c.JPG'']) ''d'' 80
       = filter (\<lambda>m. 80 \<le> score m) (collected (demo True [''a.png'', ''b.png'', ''c.JPG'']) ''d'' 0)"
proof -
  have h1: "try_compare (demo True [''a.png'', ''b.png'', ''c.JPG'']) \<lparr>shape = [300, 300], pixels = [1]\<rparr>
       \<lparr>shape = [300, 300], pixels = [1]\<rparr> = Inr 100"
    by code_simp
  have h2: "(0::real) \<le> 80" by simp
  have c0: "length (collected (demo True [''a.png'', ''b.png'', ''c.JPG'']) ''d'' 0) = 3"
    by code_simp
  have c80: "length (collected (demo True [''a.png'', ''b.png'', ''c.JPG'']) ''d'' 80) = 1"
    by code_simp
  have bn: "basename ''d/a.png'' = ''a.png''" "basename ''d/b.png'' = ''b.png''"
    by code_simp+
  show ?thesis
    using threshold_inclusive_and_monotone [where W = "demo True [''a.png'', ''b.png'', ''c.JPG'']"
        and ?img1.0 = "\<lparr>shape = [300, 300], pixels = [1]\<rparr>"
        and ?img2.0 = "\<lparr>shape = [300, 300], pixels = [1]\<rparr>"
        and t = 100 and tp = 1 and ?p1.0 = "''d/a.png''" and ?p2.0 = "''d/b.png''"
        and st = init_state and folder_path = "''d''" and ?t1.0 = 0 and ?t2.0 = 80]
      h1 h2 c0 c80 bn
    by (simp add: init_state_def)
qed

subsection \<open>The pairs of a scan\<close>

lemma cached_Nil: "cached st [] = []"
  by (simp add: cached_def map_filter_def)

lemma cached_Cons:
  "cached st (p # rest) =
     (case processed_images st p of None \<Rightarrow> cached st rest | Some a \<Rightarrow> (p, a) # cached st rest)"
  by (simp add: cached_def map_filter_def split: option.splits)

lemma cached_same:
  "processed_images st' = processed_images st \<Longrightarrow> cached st' files = cached st files"
  by (simp add: cached_def)

lemma length_cached: "length (cached st files) \<le> length files"
  by (induction files) (auto simp: cached_Nil cached_Cons split: option.splits)

lemma run_pairs_append:
  "run_pairs W t tp (ps @ qs) st =
     (case run_pairs W t tp ps st of
        (Some e, st') \<Rightarrow> (Some e, st')
      | (None, st') \<Rightarrow> run_pairs W t tp qs st')"
proof (induction ps arbitrary: st)
  case Nil
  then show ?case by simp
next
  case (Cons x ps)
  obtain p1 a p2 b where x: "x = ((p1, a), (p2, b))"
    by (cases x) auto
  obtain r st' where ps: "pair_step W t tp p1 a p2 b st = (r, st')"
    by (cases "pair_step W t tp p1 a p2 b st")
  show ?case using x ps Cons [of st'] by (cases r) simp_all
qed

lemma inner_loop_run_pairs:
  "inner_loop W t tp p1 a rest st = run_pairs W t tp (map (Pair (p1, a)) (cached st rest)) st"
proof (induction rest arbitrary: st)
  case Nil
  then show ?case by (simp add: cached_Nil)
next
  case (Cons p2 rest)
  show ?case
  proof (cases "processed_images st p2")
    case None
    with Cons show ?thesis by (simp add: cached_Cons)
  next
    case (Some b)
    obtain r st' where ps: "pair_step W t tp p1 a p2 b st = (r, st')"
      by (cases "pair_step W t tp p1 a p2 b st")
    have "processed_images st' = processed_images st"
      using pair_step_cache [of W t tp p1 a p2 b st] ps by simp
    then have c: "cached st' rest = cached st rest"
      by (rule cached_same)
    show ?thesis using Some ps c Cons [of st'] by (cases r) (simp_all add: cached_Cons)
  qed
qed

lemma spec_pairs_Nil: "spec_pairs [] = []"
  by (simp add: spec_pairs_def)

lemma spec_pairs_Cons: "spec_pairs (x # xs) = map (Pair x) xs @ spec_pairs xs"
proof -
  have a: "map (\<lambda>j. ((x # xs) ! 0, (x # xs) ! j)) [Suc 0..<length (x # xs)] = map (Pair x) xs"
  proof -
    have "[Suc 0..<Suc (length xs)] = map Suc [0..<length xs]"
      by (simp add: map_Suc_upt)
    then have "map (\<lambda>j. ((x # xs) ! 0, (x # xs) ! j)) [Suc 0..<length (x # xs)]
                 = map (\<lambda>j. (x, xs ! j)) [0..<length xs]"
      by (simp add: comp_def)
    also have "\<dots> = map (Pair x) (map (\<lambda>j. xs ! j) [0..<length xs])"
      by (simp add: comp_def)
    also have "\<dots> = map (Pair x) xs"
      by (simp add: map_nth)
    finally show ?thesis .
  qed
  have b: "map (\<lambda>i. map (\<lambda>j. ((x # xs) ! i, (x # xs) ! j)) [Suc i..<length (x # xs)])
             (map Suc [0..<length xs])
           = map (\<lambda>i. map (\<lambda>j. (xs ! i, xs ! j)) [Suc i..<length xs]) [0..<length xs]"
  proof -
    have "map (\<lambda>j. ((x # xs) ! Suc i, (x # xs) ! j)) [Suc (Suc i)..<Suc (length xs)]
            = map (\<lambda>j. (xs ! i, xs ! j)) [Suc i..<length xs]" for i
    proof -
      have "[Suc (Suc i)..<Suc (length xs)] = map Suc [Suc i..<length xs]"
        by (simp add: map_Suc_upt)
      then show ?thesis by (simp add: comp_def)
    qed
    then show ?thesis by (simp add: comp_def)
  qed
  have l: "length (x # xs) = Suc (length xs)"
    by simp
  have "[0..<length (x # xs)] = 0 # map Suc [0..<length xs]"
    unfolding l map_Suc_upt by (rule upt_conv_Cons) simp
  then have "spec_pairs (x # xs) =
      map (\<lambda>j. ((x # xs) ! 0, (x # xs) ! j)) [Suc 0..<length (x # xs)]
      @ concat (map (\<lambda>i. map (\<lambda>j. ((x # xs) ! i, (x # xs) ! j)) [Suc i..<length (x # xs)])
                 (map Suc [0..<length xs]))"
    unfolding spec_pairs_def by simp
  then show ?thesis
    unfolding a b by (simp add: spec_pairs_def)
qed

lemma outer_loop_run_pairs:
  "outer_loop W t tp files st = run_pairs W t tp (spec_pairs (cached st files)) st"
proof (induction files arbitrary: st)
  case Nil
  then show ?case by (simp add: cached_Nil spec_pairs_Nil)
next
  case (Cons p1 rest)
  show ?case
  proof (cases "processed_images st p1")
    case None
    with Cons show ?thesis by (simp add: cached_Cons)
  next
    case (Some a)
    obtain r st' where il: "inner_loop W t tp p1 a rest st = (r, st')"
      by (cases "inner_loop W t tp p1 a rest st")
    have "processed_images st' = processed_images st"
      using inner_loop_cache [of W t tp p1 a rest st] il by simp
    then have c: "cached st' rest = cached st rest"
      by (rule cached_same)
    have rp: "run_pairs W t tp (map (Pair (p1, a)) (cached st rest)) st = (r, st')"
      using il by (simp add: inner_loop_run_pairs)
    show ?thesis using Some il rp c Cons [of st']
      by (cases r) (simp_all add: cached_Cons spec_pairs_Cons run_pairs_append)
  qed
qed

lemma length_spec_pairs: "length (spec_pairs xs) = comb (length xs) 2"
proof (induction xs)
  case Nil
  then show ?case by (simp add: spec_pairs_Nil comb_def)
next
  case (Cons x xs)
  have "Suc (length xs) choose 2 = length xs + (length xs choose 2)"
    by (simp add: numeral_2_eq_2)
  with Cons show ?case by (simp add: spec_pairs_Cons comb_def)
qed

lemma comb_mono: "m \<le> n \<Longrightarrow> comb m 2 \<le> comb n 2"
proof -
  assume le: "m \<le> n"
  then have "m * (m - 1) \<le> n * (n - 1)"
    by (intro mult_le_mono) simp_all
  then have "m * (m - 1) div 2 \<le> n * (n - 1) div 2"
    by (rule div_le_mono)
  then show ?thesis by (simp add: comb_def choose_two)
qed

lemma comb_pos: "2 \<le> n \<Longrightarrow> 0 < comb n 2"
  by (simp add: comb_def)

subsection \<open>What the progress bar is told\<close>

lemma reported_progress_Nil: "reported_progress [] = []"
  by (simp add: reported_progress_def map_filter_def)

lemma reported_progress_Cons:
  "reported_progress (e # es) =
     (case totals_of e of None \<Rightarrow> reported_progress es | Some m \<Rightarrow> m # reported_progress es)"
  by (simp add: reported_progress_def map_filter_def split: option.splits)

lemma reported_progress_append:
  "reported_progress (xs @ ys) = reported_progress xs @ reported_progress ys"
  by (simp add: reported_progress_def map_filter_def)

lemma reported_progress_rows: "reported_progress (rows xs) = []"
  by (simp add: reported_progress_def rows_def map_filter_def filter_empty_conv split: prod.splits)

lemma load_body_no_progress: "reported_progress (fst (load_body W p)) = []"
  by (auto simp: load_body_def load_image_def load_except_def Let_def reported_progress_Nil
      reported_progress_Cons split: prod.splits sum.splits if_splits)

lemma load_loop_no_progress:
  "reported_progress (out (snd (load_loop W files st))) = reported_progress (out st)"
proof (induction files arbitrary: st)
  case Nil
  then show ?case by simp
next
  case (Cons p rest)
  obtain evs r where lb: "load_body W p = (evs, r)"
    by (cases "load_body W p")
  have nr: "reported_progress evs = []"
    using load_body_no_progress [of W p] lb by simp
  show ?case
  proof (cases r)
    case (Inl e)
    show ?thesis
      using lb Inl nr Cons [of "say (evs @ [PreprocessFailed (basename p) e]) st"]
      by (simp add: say_def reported_progress_append reported_progress_Cons
          reported_progress_Nil)
  next
    case (Inr a)
    show ?thesis
      using lb Inr nr
        Cons [of "(say evs st)\<lparr>processed_images := (processed_images st)(p \<mapsto> a)\<rparr>"]
      by (simp add: say_def reported_progress_append)
  qed
qed

lemma is_Exception_iff: "is_Exception e \<longleftrightarrow> e \<noteq> KeyboardInterrupt"
  by (cases e) simp_all

lemma load_body_uninterrupted:
  "never_interrupted W \<Longrightarrow> load_body W p = (evs, Inl e) \<Longrightarrow> is_Exception e"
  by (auto simp: never_interrupted_def load_body_def load_image_def load_except_def Let_def
      preprocess_image_def is_Exception_iff cv2_resize_def cv2_cvtColor_BGR2GRAY_def
      split: prod.splits sum.splits if_splits option.splits)

lemma load_loop_uninterrupted:
  "never_interrupted W \<Longrightarrow> fst (load_loop W files st) = None"
proof (induction files arbitrary: st)
  case Nil
  then show ?case by simp
next
  case (Cons p rest)
  obtain evs r where lb: "load_body W p = (evs, r)"
    by (cases "load_body W p")
  show ?case
  proof (cases r)
    case (Inl e)
    then have "is_Exception e"
      using load_body_uninterrupted [OF Cons.prems] lb by simp
    then show ?thesis using lb Inl Cons by simp
  next
    case (Inr a)
    then show ?thesis using lb Cons by simp
  qed
qed

lemma try_compare_uninterrupted:
  "never_interrupted W \<Longrightarrow> try_compare W a b = Inl e \<Longrightarrow> is_Exception e"
  by (auto simp: never_interrupted_def try_compare_def reconcile_def cv2_resize_def
      compare_images_def is_Exception_iff split: sum.splits if_splits)

lemma pair_step_with_bar:
  assumes "tqdm W" and "0 < tp" and "never_interrupted W"
  shows "fst (pair_step W t tp p1 a p2 b st) = None
       \<and> current_pair (snd (pair_step W t tp p1 a p2 b st)) = Suc (current_pair st)
       \<and> reported_progress (out (snd (pair_step W t tp p1 a p2 b st)))
           = reported_progress (out st) @ [(Suc (current_pair st), tp)]"
proof (cases "try_compare W a b")
  case (Inl e)
  then have "is_Exception e"
    using try_compare_uninterrupted [OF assms(3)] by simp
  then show ?thesis
    using Inl assms(1,2)
    by (simp add: pair_step_def progress_update_def say_def Let_def reported_progress_append
        reported_progress_Cons reported_progress_Nil)
next
  case (Inr s)
  then show ?thesis
    using assms(1,2)
    by (simp add: pair_step_def progress_update_def say_def Let_def reported_progress_append
        reported_progress_Cons reported_progress_Nil)
qed

lemma run_pairs_with_bar:
  assumes "tqdm W" and "0 < tp" and "never_interrupted W"
  shows "fst (run_pairs W t tp ps st) = None
       \<and> current_pair (snd (run_pairs W t tp ps st)) = current_pair st + length ps
       \<and> reported_progress (out (snd (run_pairs W t tp ps st)))
           = reported_progress (out st)
             @ map (\<lambda>k. (k, tp)) [Suc (current_pair st)..<Suc (current_pair st + length ps)]"
proof (induction ps arbitrary: st)
  case Nil
  then show ?case by simp
next
  case (Cons x ps)
  obtain p1 a p2 b where x: "x = ((p1, a), (p2, b))"
    by (cases x) auto
  obtain r st' where ps: "pair_step W t tp p1 a p2 b st = (r, st')"
    by (cases "pair_step W t tp p1 a p2 b st")
  have r: "r = None" and cp: "current_pair st' = Suc (current_pair st)"
    and rp: "reported_progress (out st') = reported_progress (out st) @ [(Suc (current_pair st), tp)]"
    using pair_step_with_bar [OF assms, of t p1 a p2 b st] ps by simp_all
  have ih: "fst (run_pairs W t tp ps st') = None
       \<and> current_pair (snd (run_pairs W t tp ps st')) = current_pair st' + length ps
       \<and> reported_progress (out (snd (run_pairs W t tp ps st')))
           = reported_progress (out st')
             @ map (\<lambda>k. (k, tp)) [Suc (current_pair st')..<Suc (current_pair st' + length ps)]"
    by (rule Cons)
  have u: "[Suc (current_pair st)..<Suc (current_pair st + length (x # ps))]
           = Suc (current_pair st) # [Suc (current_pair st')..<Suc (current_pair st' + length ps)]"
    unfolding cp by (subst upt_conv_Cons) simp_all
  have e: "run_pairs W t tp (x # ps) st = run_pairs W t tp ps st'"
    using x ps r by simp
  show ?case
    unfolding e u using ih rp cp by simp
qed

lemma load_loop_dom:
  "dom (processed_images (snd (load_loop W files st))) \<subseteq> dom (processed_images st) \<union> set files"
proof (induction files arbitrary: st)
  case Nil
  then show ?case by simp
next
  case (Cons p rest)
  obtain evs r where lb: "load_body W p = (evs, r)"
    by (cases "load_body W p")
  show ?case
  proof (cases r)
    case (Inl e)
    show ?thesis
      using lb Inl Cons [of "say (evs @ [PreprocessFailed (basename p) e]) st"]
      by (auto simp: say_def)
  next
    case (Inr a)
    show ?thesis
      using lb Inr
        Cons [of "(say evs st)\<lparr>processed_images := (processed_images st)(p \<mapsto> a)\<rparr>"]
      by (auto simp: say_def)
  qed
qed

lemma map_fst_cached:
  "map fst (cached st files) = filter (\<lambda>p. p \<in> dom (processed_images st)) files"
  by (induction files) (auto simp: cached_Nil cached_Cons split: option.splits)

lemma length_cached_card:
  assumes "distinct files" and "dom (processed_images st) \<subseteq> set files"
  shows "length (cached st files) = card (dom (processed_images st))"
proof -
  have "length (cached st files) = length (filter (\<lambda>p. p \<in> dom (processed_images st)) files)"
    using map_fst_cached [of st files] by (metis length_map)
  also have "\<dots> = card (set (filter (\<lambda>p. p \<in> dom (processed_images st)) files))"
    using distinct_card [of "filter (\<lambda>p. p \<in> dom (processed_images st)) files"] assms(1)
    by (simp only: distinct_filter)
  also have "set (filter (\<lambda>p. p \<in> dom (processed_images st)) files) = dom (processed_images st)"
    using assms(2) by auto
  finally show ?thesis .
qed

lemma scan_loops_with_bar:
  assumes "tqdm W" and "never_interrupted W" and "2 \<le> length files"
  shows "fst (scan_loops W t files) = None
       \<and> current_pair (snd (scan_loops W t files))
           = comb (length (cached (snd (load_loop W files init_state)) files)) 2
       \<and> reported_progress (out (snd (scan_loops W t files)))
           = map (\<lambda>k. (k, comb (length files) 2))
               [1..<Suc (comb (length (cached (snd (load_loop W files init_state)) files)) 2)]"
proof -
  obtain r st where ll: "load_loop W files init_state = (r, st)"
    by (cases "load_loop W files init_state")
  have r: "r = None"
    using load_loop_uninterrupted [OF assms(2), of files init_state] ll by simp
  have rp0: "reported_progress (out st) = []"
    using load_loop_no_progress [of W files init_state] ll
    by (simp add: init_state_def reported_progress_Nil)
  have pos: "0 < comb (length files) 2"
    using assms(3) by (rule comb_pos)
  have sl: "scan_loops W t files
              = run_pairs W t (comb (length files) 2) (spec_pairs (cached st files)) st"
    using ll r by (simp add: scan_loops_def outer_loop_run_pairs)
  have cp0: "current_pair st = 0"
  proof -
    have "current_pair (snd (load_loop W fs s)) = current_pair s" for fs s
    proof (induction fs arbitrary: s)
      case Nil
      then show ?case by simp
    next
      case (Cons p rest)
      obtain evs q where lb: "load_body W p = (evs, q)"
        by (cases "load_body W p")
      show ?case
      proof (cases q)
        case (Inl e)
        show ?thesis
          using lb Inl Cons [of "say (evs @ [PreprocessFailed (basename p) e]) s"]
          by (simp add: say_def)
      next
        case (Inr a)
        show ?thesis
          using lb Inr
            Cons [of "(say evs s)\<lparr>processed_images := (processed_images s)(p \<mapsto> a)\<rparr>"]
          by (simp add: say_def)
      qed
    qed
    from this [of files init_state] ll show ?thesis by (simp add: init_state_def)
  qed
  show ?thesis
    using run_pairs_with_bar [OF assms(1) pos assms(2), of t "spec_pairs (cached st files)" st]
      ll sl rp0 cp0
    by (simp add: length_spec_pairs)
qed

text \<open>
  C1, amended. The pair loop scores the pairs \<open>(keys[i], keys[j])\<close>, \<open>i < j\<close>, of the
  cached images, in that order and each once, up to the first exception that leaves it;
  there are \<open>C(n,2)\<close> of them for \<open>n\<close> cached images. \<^verbatim>\<open>total_pairs\<close> is
  \<open>C(m,2)\<close> for the \<open>m\<close> candidate files, computed before any image is loaded; it is
  at least \<open>C(n,2)\<close>. With the progress bar and no interrupt the counter ends at
  \<open>C(n,2)\<close> and the bar is told \<open>(1, C(m,2)), \<dots>, (C(n,2), C(m,2))\<close>.
\<close>

theorem pairs_visited_once_total_of_candidates:
  assumes "image_files = image_files_of W folder_path"
      and "st = snd (load_loop W image_files init_state)"
      and "n = length (cached st image_files)"
  shows "outer_loop W t (comb (length image_files) 2) image_files st
           = run_pairs W t (comb (length image_files) 2) (spec_pairs (cached st image_files)) st
       \<and> length (spec_pairs (cached st image_files)) = comb n 2
       \<and> (distinct image_files \<longrightarrow> n = card (dom (processed_images st)))
       \<and> n \<le> length image_files
       \<and> comb n 2 \<le> comb (length image_files) 2
       \<and> (tqdm W \<and> never_interrupted W \<and> isdir W folder_path \<and> 2 \<le> length image_files \<longrightarrow>
            current_pair (snd (scan_loops W t image_files)) = comb n 2
            \<and> reported_progress (fst (auto_scan_folder W folder_path t))
                = map (\<lambda>k. (k, comb (length image_files) 2)) [1..<Suc (comb n 2)])"
proof -
  have d: "n = card (dom (processed_images st))" if "distinct image_files"
  proof -
    have "dom (processed_images st) \<subseteq> set image_files"
      using load_loop_dom [of W image_files init_state] assms(2) by (simp add: init_state_def)
    with that show ?thesis
      unfolding assms(3) by (rule length_cached_card)
  qed
  have le: "n \<le> length image_files"
    unfolding assms(3) by (rule length_cached)
  have bar: "current_pair (snd (scan_loops W t image_files)) = comb n 2
            \<and> reported_progress (fst (auto_scan_folder W folder_path t))
                = map (\<lambda>k. (k, comb (length image_files) 2)) [1..<Suc (comb n 2)]"
    if h: "tqdm W" "never_interrupted W" "isdir W folder_path" "2 \<le> length image_files"
  proof -
    have s: "fst (scan_loops W t image_files) = None
       \<and> current_pair (snd (scan_loops W t image_files)) = comb n 2
       \<and> reported_progress (out (snd (scan_loops W t image_files)))
           = map (\<lambda>k. (k, comb (length image_files) 2)) [1..<Suc (comb n 2)]"
      using scan_loops_with_bar [OF h(1) h(2) h(4), of t] assms(2,3) by simp
    have "auto_scan_folder W folder_path t =
           (out (snd (scan_loops W t (image_files_of W folder_path)))
              @ [FoundCount (length (collected W folder_path t))]
              @ rows (take 20 (sort_reverse score (collected W folder_path t)))
              @ [TitleDone],
            Inr (sort_reverse score (collected W folder_path t)))"
      using h(3,4) s assms(1) by (intro auto_scan_folder_completed) simp_all
    then show ?thesis
      using s assms(1)
      by (simp add: reported_progress_append reported_progress_rows reported_progress_Cons
          reported_progress_Nil)
  qed
  show ?thesis
    using d le bar comb_mono [OF le]
    by (simp add: outer_loop_run_pairs length_spec_pairs assms(3))
qed

lemma demo_quiet_never_interrupted:
  "never_interrupted (demo_quiet bar names)"
  by (simp add: never_interrupted_def demo_quiet_def demo_def split: option.splits)

theorem pairs_visited_once_total_of_candidates_witness:
  "tqdm (demo_quiet True [''a.png'', ''bad.png'', ''b.png'', ''c.JPG''])
   \<and> never_interrupted (demo_quiet True [''a.png'', ''bad.png'', ''b.png'', ''c.JPG''])
   \<and> isdir (demo_quiet True [''a.png'', ''bad.png'', ''b.png'', ''c.JPG'']) ''d''
   \<and> length (image_files_of (demo_quiet True [''a.png'', ''bad.png'', ''b.png'', ''c.JPG'']) ''d'') = 4
   \<and> length (cached (snd (load_loop (demo_quiet True [''a.png'', ''bad.png'', ''b.png'', ''c.JPG''])
         (image_files_of (demo_quiet True [''a.png'', ''bad.png'', ''b.png'', ''c.JPG'']) ''d'') init_state))
         (image_files_of (demo_quiet True [''a.png'', ''bad.png'', ''b.png'', ''c.JPG'']) ''d'')) = 3
   \<and> reported_progress
         (fst (auto_scan_folder (demo_quiet True [''a.png'', ''bad.png'', ''b.png'', ''c.JPG'']) ''d'' 80))
       = [(1, 6), (2, 6), (3, 6)]"
proof -
  have h1: "tqdm (demo_quiet True [''a.png'', ''bad.png'', ''b.png'', ''c.JPG''])"
    by (simp add: demo_quiet_def demo_def)
  have h2: "never_interrupted (demo_quiet True [''a.png'', ''bad.png'', ''b.png'', ''c.JPG''])"
    by (rule demo_quiet_never_interrupted)
  have h3: "isdir (demo_quiet True [''a.png'', ''bad.png'', ''b.png'', ''c.JPG'']) ''d''"
    by (simp add: demo_quiet_def demo_def)
  have h4: "length (image_files_of (demo_quiet True [''a.png'', ''bad.png'', ''b.png'', ''c.JPG'']) ''d'') = 4"
    by code_simp
  have h5: "length (cached (snd (load_loop (demo_quiet True [''a.png'', ''bad.png'', ''b.png'', ''c.JPG''])
         (image_files_of (demo_quiet True [''a.png'', ''bad.png'', ''b.png'', ''c.JPG'']) ''d'') init_state))
         (image_files_of (demo_quiet True [''a.png'', ''bad.png'', ''b.png'', ''c.JPG'']) ''d'')) = 3"
    by code_simp
  have e: "map (\<lambda>k. (k, comb 4 2)) [1..<Suc (comb 3 2)] = [(1, 6), (2, 6), (3, 6)]"
    by code_simp
  show ?thesis
    using pairs_visited_once_total_of_candidates [OF refl refl refl,
        of "demo_quiet True [''a.png'', ''bad.png'', ''b.png'', ''c.JPG'']" 80 "''d''"]
      h1 h2 h3 h4 h5 e
    by simp
qed

text \<open>
  C1, as stated, fails: three candidate files of which one is no image. Two images are
  cached, one pair is scored, and the total reported with it is \<open>C(3,2) = 3\<close>, not
  \<open>C(2,2) = 1\<close>.
\<close>

theorem total_pairs_counts_candidates:
  "length (cached (snd (load_loop (demo True [''a.png'', ''bad.png'', ''b.png''])
              (image_files_of (demo True [''a.png'', ''bad.png'', ''b.png'']) ''d'') init_state))
            (image_files_of (demo True [''a.png'', ''bad.png'', ''b.png'']) ''d'')) = 2
   \<and> reported_progress (fst (auto_scan_folder (demo True [''a.png'', ''bad.png'', ''b.png'']) ''d'' 80))
       = [(1, 3)]
   \<and> comb 2 2 = 1"
  by code_simp

subsection \<open>Files that are no images\<close>

lemma load_body_undecodable:
  "snd (load_image W p (\<not> tqdm W)) = Inr None
     \<Longrightarrow> load_body W p = (fst (load_image W p (\<not> tqdm W)), Inl CvError)"
  by (cases "load_image W p (\<not> tqdm W)")
     (simp add: load_body_def preprocess_image_def cv2_resize_def)

lemma load_body_exit:
  "load_body W p = (evs, Inl e) \<Longrightarrow> \<not> is_Exception e \<Longrightarrow> e = KeyboardInterrupt"
  by (simp add: is_Exception_iff)

lemma load_loop_exit:
  "fst (load_loop W files st) = Some e \<Longrightarrow> e = KeyboardInterrupt"
proof (induction files arbitrary: st)
  case Nil
  then show ?case by simp
next
  case (Cons p rest)
  obtain evs r where lb: "load_body W p = (evs, r)"
    by (cases "load_body W p")
  show ?case
  proof (cases r)
    case (Inl x)
    show ?thesis
    proof (cases "is_Exception x")
      case True
      with Cons lb Inl show ?thesis by simp
    next
      case False
      with Cons.prems lb Inl show ?thesis by (simp add: is_Exception_iff)
    qed
  next
    case (Inr a)
    with Cons lb show ?thesis by simp
  qed
qed

lemma cached_filter:
  "cached st (filter (\<lambda>p. processed_images st p \<noteq> None) files) = cached st files"
  by (induction files) (auto simp: cached_Nil cached_Cons split: option.splits)

lemma cached_member:
  "(p, a) \<in> set (cached st files) \<Longrightarrow> p \<in> set files \<and> processed_images st p = Some a"
  by (induction files) (auto simp: cached_Nil cached_Cons split: option.splits)

lemma set_spec_pairs: "set (spec_pairs xs) \<subseteq> set xs \<times> set xs"
  by (induction xs) (auto simp: spec_pairs_Nil spec_pairs_Cons)

lemma pair_step_results_from:
  "m \<in> set (results (snd (pair_step W t tp p1 a p2 b st)))
     \<Longrightarrow> m \<in> set (results st) \<or> (fst m = basename p1 \<and> fst (snd m) = basename p2)"
  by (auto simp: pair_step_results split: sum.splits if_splits)

lemma run_pairs_results_from:
  "m \<in> set (results (snd (run_pairs W t tp ps st)))
     \<Longrightarrow> m \<in> set (results st)
         \<or> (\<exists>p1 a p2 b. ((p1, a), (p2, b)) \<in> set ps
               \<and> fst m = basename p1 \<and> fst (snd m) = basename p2)"
proof (induction ps arbitrary: st)
  case Nil
  then show ?case by simp
next
  case (Cons x ps)
  obtain p1 a p2 b where x: "x = ((p1, a), (p2, b))"
    by (cases x) auto
  obtain r st' where ps: "pair_step W t tp p1 a p2 b st = (r, st')"
    by (cases "pair_step W t tp p1 a p2 b st")
  have from_step: "m \<in> set (results st')
     \<Longrightarrow> m \<in> set (results st) \<or> (fst m = basename p1 \<and> fst (snd m) = basename p2)"
    using pair_step_results_from [of m W t tp p1 a p2 b st] ps by simp
  show ?case
  proof (cases r)
    case None
    then have "m \<in> set (results (snd (run_pairs W t tp ps st')))"
      using Cons.prems x ps by simp
    then have "m \<in> set (results st')
         \<or> (\<exists>p1 a p2 b. ((p1, a), (p2, b)) \<in> set ps
               \<and> fst m = basename p1 \<and> fst (snd m) = basename p2)"
      by (rule Cons.IH)
    then show ?thesis using from_step x by auto
  next
    case (Some e)
    then have "m \<in> set (results st')"
      using Cons.prems x ps by simp
    then show ?thesis using from_step x by auto
  qed
qed

lemma outer_loop_results_from:
  assumes "m \<in> set (results (snd (outer_loop W t tp files st)))"
  shows "m \<in> set (results st)
       \<or> (\<exists>p1 p2. p1 \<in> set files \<and> p2 \<in> set files
            \<and> processed_images st p1 \<noteq> None \<and> processed_images st p2 \<noteq> None
            \<and> fst m = basename p1 \<and> fst (snd m) = basename p2)"
proof -
  have "m \<in> set (results st)
         \<or> (\<exists>p1 a p2 b. ((p1, a), (p2, b)) \<in> set (spec_pairs (cached st files))
               \<and> fst m = basename p1 \<and> fst (snd m) = basename p2)"
    using assms by (intro run_pairs_results_from) (simp add: outer_loop_run_pairs)
  then show ?thesis
  proof
    assume "m \<in> set (results st)"
    then show ?thesis by simp
  next
    assume "\<exists>p1 a p2 b. ((p1, a), (p2, b)) \<in> set (spec_pairs (cached st files))
               \<and> fst m = basename p1 \<and> fst (snd m) = basename p2"
    then obtain p1 a p2 b where
      mem: "((p1, a), (p2, b)) \<in> set (spec_pairs (cached st files))"
      and nm: "fst m = basename p1" "fst (snd m) = basename p2"
      by blast
    have "(p1, a) \<in> set (cached st files)" and "(p2, b) \<in> set (cached st files)"
      using mem set_spec_pairs [of "cached st files"] by auto
    then have "p1 \<in> set files \<and> processed_images st p1 = Some a"
      and "p2 \<in> set files \<and> processed_images st p2 = Some b"
      by (auto dest: cached_member)
    with nm show ?thesis by auto
  qed
qed

lemma collected_from_cache:
  assumes "m \<in> set (collected W f t)"
  shows "\<exists>p1 p2. p1 \<in> set (image_files_of W f) \<and> p2 \<in> set (image_files_of W f)
            \<and> processed_images (snd (load_loop W (image_files_of W f) init_state)) p1 \<noteq> None
            \<and> processed_images (snd (load_loop W (image_files_of W f) init_state)) p2 \<noteq> None
            \<and> fst m = basename p1 \<and> fst (snd m) = basename p2"
proof -
  obtain r st where ll: "load_loop W (image_files_of W f) init_state = (r, st)"
    by (cases "load_loop W (image_files_of W f) init_state")
  have r0: "results st = []"
    using load_loop_results [of W "image_files_of W f" init_state] ll
    by (simp add: init_state_def)
  show ?thesis
  proof (cases r)
    case (Some e)
    then show ?thesis using assms ll r0 by (simp add: collected_def scan_loops_def)
  next
    case None
    then have "m \<in> set (results (snd (outer_loop W t (comb (length (image_files_of W f)) 2)
                  (image_files_of W f) st)))"
      using assms ll by (simp add: collected_def scan_loops_def)
    then show ?thesis
      using outer_loop_results_from [of m W t _ "image_files_of W f" st] r0 ll by simp
  qed
qed

lemma auto_scan_folder_with_bar_returns:
  assumes "tqdm W" and "never_interrupted W"
  shows "\<exists>rs. snd (auto_scan_folder W f t) = Inr rs"
proof (cases "\<not> isdir W f \<or> length (image_files_of W f) < 2")
  case True
  then show ?thesis by (simp add: auto_scan_folder_result)
next
  case False
  then have "2 \<le> length (image_files_of W f)" by simp
  then have "fst (scan_loops W t (image_files_of W f)) = None"
    using scan_loops_with_bar [OF assms, of "image_files_of W f" t] by simp
  with False show ?thesis by (simp add: auto_scan_folder_result)
qed

text \<open>
  C7. A path whose image cannot be loaded is not a key of the cache. The load phase is
  left by no exception but the operator's interrupt: at such a path it prints the
  diagnostic and goes on with the next one. The pair loop does what it would do on
  the list of the cached paths alone, every collected match names two cached images,
  and with the progress bar and no interrupt \<open>auto_scan_folder\<close> returns a result.
\<close>

theorem undecodable_files_are_skipped:
  assumes "image_files = image_files_of W folder_path"
      and "st = snd (load_loop W image_files init_state)"
  shows "(\<forall>p. snd (load_image W p (\<not> tqdm W)) = Inr None \<longrightarrow> processed_images st p = None)
       \<and> (\<forall>e. fst (load_loop W image_files init_state) = Some e \<longrightarrow> e = KeyboardInterrupt)
       \<and> (\<forall>p rest s. snd (load_image W p (\<not> tqdm W)) = Inr None \<longrightarrow>
             load_loop W (p # rest) s
               = load_loop W rest
                   (say (fst (load_image W p (\<not> tqdm W)) @ [PreprocessFailed (basename p) CvError]) s))
       \<and> outer_loop W t tp image_files st
           = outer_loop W t tp (filter (\<lambda>p. processed_images st p \<noteq> None) image_files) st
       \<and> (\<forall>m \<in> set (collected W folder_path t).
             \<exists>p1 p2. p1 \<in> set image_files \<and> p2 \<in> set image_files
               \<and> processed_images st p1 \<noteq> None \<and> processed_images st p2 \<noteq> None
               \<and> fst m = basename p1 \<and> fst (snd m) = basename p2)
       \<and> (tqdm W \<and> never_interrupted W \<longrightarrow>
             (\<exists>rs. snd (auto_scan_folder W folder_path t) = Inr rs))"
proof -
  have a: "processed_images st p = None" if u: "snd (load_image W p (\<not> tqdm W)) = Inr None" for p
  proof (rule ccontr)
    assume "processed_images st p \<noteq> None"
    then obtain x where "processed_images st p = Some x" by auto
    then obtain evs where "load_body W p = (evs, Inr x)"
      using load_loop_init_entries [of W image_files p x] assms(2) by auto
    then show False using load_body_undecodable [OF u] by simp
  qed
  have b: "e = KeyboardInterrupt" if "fst (load_loop W image_files init_state) = Some e" for e
    using that by (rule load_loop_exit)
  have c: "load_loop W (p # rest) s
               = load_loop W rest
                   (say (fst (load_image W p (\<not> tqdm W)) @ [PreprocessFailed (basename p) CvError]) s)"
    if u: "snd (load_image W p (\<not> tqdm W)) = Inr None" for p rest s
    using load_body_undecodable [OF u] by simp
  have d: "outer_loop W t tp image_files st
           = outer_loop W t tp (filter (\<lambda>p. processed_images st p \<noteq> None) image_files) st"
    by (simp only: outer_loop_run_pairs cached_filter)
  have e: "\<exists>p1 p2. p1 \<in> set image_files \<and> p2 \<in> set image_files
               \<and> processed_images st p1 \<noteq> None \<and> processed_images st p2 \<noteq> None
               \<and> fst m = basename p1 \<and> fst (snd m) = basename p2"
    if "m \<in> set (collected W folder_path t)" for m
    using collected_from_cache [OF that] assms by simp
  have f: "\<exists>rs. snd (auto_scan_folder W folder_path t) = Inr rs"
    if "tqdm W" "never_interrupted W"
    using that by (rule auto_scan_folder_with_bar_returns)
  show ?thesis
    using a b c d e f by blast
qed

theorem undecodable_files_are_skipped_witness:
  "snd (load_image (demo_quiet True [''a.png'', ''bad.png'', ''b.png'']) ''d/bad.png'' False) = Inr None
   \<and> processed_images (snd (load_loop (demo_quiet True [''a.png'', ''bad.png'', ''b.png''])
        (image_files_of (demo_quiet True [''a.png'', ''bad.png'', ''b.png'']) ''d'') init_state))
        ''d/bad.png'' = None
   \<and> fst (load_loop (demo_quiet True [''a.png'', ''bad.png'', ''b.png''])
        (image_files_of (demo_quiet True [''a.png'', ''bad.png'', ''b.png'']) ''d'') init_state) = None
   \<and> collected (demo_quiet True [''a.png'', ''bad.png'', ''b.png'']) ''d'' 80
        = [(''a.png'', ''b.png'', 100)]
   \<and> snd (auto_scan_folder (demo_quiet True [''a.png'', ''bad.png'', ''b.png'']) ''d'' 80)
        = Inr [(''a.png'', ''b.png'', 100)]"
proof -
  have h1: "tqdm (demo_quiet True [''a.png'', ''bad.png'', ''b.png''])"
    by (simp add: demo_quiet_def demo_def)
  have h2: "never_interrupted (demo_quiet True [''a.png'', ''bad.png'', ''b.png''])"
    by (rule demo_quiet_never_interrupted)
  have h3: "snd (load_image (demo_quiet True [''a.png'', ''bad.png'', ''b.png'']) ''d/bad.png''
                  (\<not> tqdm (demo_quiet True [''a.png'', ''bad.png'', ''b.png'']))) = Inr None"
    by code_simp
  have h4: "fst (load_loop (demo_quiet True [''a.png'', ''bad.png'', ''b.png''])
        (image_files_of (demo_quiet True [''a.png'', ''bad.png'', ''b.png'']) ''d'') init_state) = None"
    by code_simp
  have h5: "collected (demo_quiet True [''a.png'', ''bad.png'', ''b.png'']) ''d'' 80
        = [(''a.png'', ''b.png'', 100)]"
    by code_simp
  have h6: "snd (auto_scan_folder (demo_quiet True [''a.png'', ''bad.png'', ''b.png'']) ''d'' 80)
        = Inr [(''a.png'', ''b.png'', 100)]"
    by code_simp
  show ?thesis
    using undecodable_files_are_skipped [OF refl refl,
        of "demo_quiet True [''a.png'', ''bad.png'', ''b.png'']" "''d''" 80 1]
      h1 h2 h3 h4 h5 h6
    by simp
qed

subsection \<open>One image against a folder\<close>

lemma folder_matches_Nil: "folder_matches W b f t bp [] = []"
  by (simp add: folder_matches_def map_filter_def)

lemma folder_matches_Cons:
  "folder_matches W b f t bp (n # ns) =
     (if abspath W (path_join f n) = abspath W b then folder_matches W b f t bp ns
      else (case snd (entry_body W bp (path_join f n)) of
              Inr s \<Rightarrow> if t \<le> s then (n, s) # folder_matches W b f t bp ns
                       else folder_matches W b f t bp ns
            | Inl e \<Rightarrow> folder_matches W b f t bp ns))"
  by (simp add: folder_matches_def map_filter_def split: sum.splits)

lemma folder_matches_member:
  "(n, s) \<in> set (folder_matches W b f t bp ns) \<longleftrightarrow>
     n \<in> set ns \<and> abspath W (path_join f n) \<noteq> abspath W b
     \<and> snd (entry_body W bp (path_join f n)) = Inr s \<and> t \<le> s"
  by (induction ns) (auto simp: folder_matches_Nil folder_matches_Cons split: sum.splits)

lemma shown_result_rows_Nil: "shown_result_rows [] = []"
  by (simp add: shown_result_rows_def map_filter_def)

lemma shown_result_rows_Cons:
  "shown_result_rows (e # es) =
     (case result_row_of e of None \<Rightarrow> shown_result_rows es
      | Some m \<Rightarrow> m # shown_result_rows es)"
  by (simp add: shown_result_rows_def map_filter_def split: option.splits)

lemma shown_result_rows_append:
  "shown_result_rows (xs @ ys) = shown_result_rows xs @ shown_result_rows ys"
  by (simp add: shown_result_rows_def map_filter_def)

lemma shown_result_rows_result_rows: "shown_result_rows (result_rows xs) = xs"
  by (induction xs) (auto simp: result_rows_def shown_result_rows_Nil shown_result_rows_Cons)

lemma load_image_no_result_rows: "shown_result_rows (fst (load_image W p v)) = []"
  by (simp add: load_image_def load_except_def Let_def shown_result_rows_Nil
      shown_result_rows_Cons split: sum.splits)

lemma entry_body_no_result_rows: "shown_result_rows (fst (entry_body W bp p)) = []"
  using load_image_no_result_rows [of W p False]
  by (auto simp: entry_body_def split: prod.splits sum.splits)

lemma folder_loop_found:
  "fst (folder_loop W b f t bp ns (found, evs)) = found @ folder_matches W b f t bp ns"
proof (induction ns arbitrary: found evs)
  case Nil
  then show ?case by (simp add: folder_matches_Nil)
next
  case (Cons n ns)
  obtain evs' r where eb: "entry_body W bp (path_join f n) = (evs', r)"
    by (cases "entry_body W bp (path_join f n)")
  show ?case
    using eb Cons by (cases r) (simp_all add: folder_matches_Cons Let_def)
qed

lemma folder_loop_no_result_rows:
  "shown_result_rows (snd (folder_loop W b f t bp ns (found, evs))) = shown_result_rows evs"
proof (induction ns arbitrary: found evs)
  case Nil
  then show ?case by simp
next
  case (Cons n ns)
  obtain evs' r where eb: "entry_body W bp (path_join f n) = (evs', r)"
    by (cases "entry_body W bp (path_join f n)")
  have nr: "shown_result_rows evs' = []"
    using entry_body_no_result_rows [of W bp "path_join f n"] eb by simp
  show ?case
    using eb nr Cons
    by (cases r) (simp_all add: Let_def shown_result_rows_append shown_result_rows_Cons
        shown_result_rows_Nil)
qed

text \<open>
  C6. With a base image that loads, \<open>compare_image_with_folder\<close> ends normally and the
  rows it prints last are sorted by score, highest first. A row \<open>(filename, s)\<close> is
  printed exactly for the entries of the folder whose absolute path differs from that of
  the base image and whose comparison with the base gave a score \<open>s\<close> of at least the
  threshold: an entry of the same name or the same bytes under another path is compared.
\<close>

theorem base_excluded_by_path_rows_sorted:
  assumes "load_image W base_image_path False = (evs0, Inr base_image)"
      and "preprocess_image W base_image default_size = Inr base_image_proc"
      and "isdir W folder_path"
  shows "snd (compare_image_with_folder W base_image_path folder_path t) = Inr ()
       \<and> shown_result_rows (fst (compare_image_with_folder W base_image_path folder_path t))
           = sort_reverse snd
               (folder_matches W base_image_path folder_path t base_image_proc
                  (listdir W folder_path))
       \<and> sorted_wrt (\<lambda>a b. snd b \<le> snd a)
           (shown_result_rows (fst (compare_image_with_folder W base_image_path folder_path t)))
       \<and> (\<forall>filename s.
             (filename, s) \<in> set (shown_result_rows
                  (fst (compare_image_with_folder W base_image_path folder_path t)))
             \<longleftrightarrow> filename \<in> set (listdir W folder_path)
                 \<and> abspath W (path_join folder_path filename) \<noteq> abspath W base_image_path
                 \<and> snd (entry_body W base_image_proc (path_join folder_path filename)) = Inr s
                 \<and> t \<le> s)"
proof -
  obtain found evs where fl:
    "folder_loop W base_image_path folder_path t base_image_proc (listdir W folder_path) ([], evs0)
       = (found, evs)"
    by (cases "folder_loop W base_image_path folder_path t base_image_proc
                 (listdir W folder_path) ([], evs0)")
  have found: "found = folder_matches W base_image_path folder_path t base_image_proc
                         (listdir W folder_path)"
    using folder_loop_found [of W base_image_path folder_path t base_image_proc
        "listdir W folder_path" "[]" evs0] fl by simp
  have "shown_result_rows evs0 = []"
    using load_image_no_result_rows [of W base_image_path False] assms(1) by simp
  then have evs: "shown_result_rows evs = []"
    using folder_loop_no_result_rows [of W base_image_path folder_path t base_image_proc
        "listdir W folder_path" "[]" evs0] fl by simp
  have res: "snd (compare_image_with_folder W base_image_path folder_path t) = Inr ()"
    using assms fl by (simp add: compare_image_with_folder_def)
  have shown: "shown_result_rows (fst (compare_image_with_folder W base_image_path folder_path t))
           = sort_reverse snd found"
  proof (cases "found = []")
    case True
    then show ?thesis
      using assms fl evs
      by (simp add: compare_image_with_folder_def shown_result_rows_append
          shown_result_rows_Cons shown_result_rows_Nil sort_reverse_def)
  next
    case False
    then show ?thesis
      using assms fl evs
      by (simp add: compare_image_with_folder_def shown_result_rows_append
          shown_result_rows_Cons shown_result_rows_Nil shown_result_rows_result_rows)
  qed
  have mem: "(filename, s) \<in> set (sort_reverse snd found) \<longleftrightarrow>
               filename \<in> set (listdir W folder_path)
                 \<and> abspath W (path_join folder_path filename) \<noteq> abspath W base_image_path
                 \<and> snd (entry_body W base_image_proc (path_join folder_path filename)) = Inr s
                 \<and> t \<le> s" for filename s
  proof -
    have "set (sort_reverse snd found) = set found"
      using mset_sort_reverse [of snd found] by (metis set_mset_mset)
    then show ?thesis
      unfolding found by (simp add: folder_matches_member)
  qed
  show ?thesis
    unfolding shown using res mem found sorted_sort_reverse [of snd found] by simp
qed

theorem base_excluded_by_path_rows_sorted_witness:
  "isdir (demo True [''c.JPG'', ''a.png'', ''b.png'']) ''d''
   \<and> shown_result_rows
        (fst (compare_image_with_folder (demo True [''c.JPG'', ''a.png'', ''b.png''])
                ''d/a.png'' ''d'' 0))
       = [(''b.png'', 100), (''c.JPG'', 0)]
   \<and> shown_result_rows
        (fst (compare_image_with_folder (demo True [''c.JPG'', ''a.png'', ''b.png''])
                ''e/a.png'' ''d'' 0))
       = [(''a.png'', 100), (''b.png'', 100), (''c.JPG'', 0)]"
proof -
  have h1: "load_image (demo True [''c.JPG'', ''a.png'', ''b.png'']) ''d/a.png'' False
              = ([], Inr (Some \<lparr>shape = [40, 60, 3], pixels = [1]\<rparr>))"
    by code_simp
  have h2: "preprocess_image (demo True [''c.JPG'', ''a.png'', ''b.png''])
              (Some \<lparr>shape = [40, 60, 3], pixels = [1]\<rparr>) default_size
              = Inr \<lparr>shape = [300, 300], pixels = [1]\<rparr>"
    by code_simp
  have h3: "isdir (demo True [''c.JPG'', ''a.png'', ''b.png'']) ''d''"
    by (simp add: demo_def)
  have m: "sort_reverse snd (folder_matches (demo True [''c.JPG'', ''a.png'', ''b.png''])
              ''d/a.png'' ''d'' 0 \<lparr>shape = [300, 300], pixels = [1]\<rparr>
              (listdir (demo True [''c.JPG'', ''a.png'', ''b.png'']) ''d''))
           = [(''b.png'', 100), (''c.JPG'', 0)]"
    by code_simp
  have o: "shown_result_rows
        (fst (compare_image_with_folder (demo True [''c.JPG'', ''a.png'', ''b.png''])
                ''e/a.png'' ''d'' 0))
       = [(''a.png'', 100), (''b.png'', 100), (''c.JPG'', 0)]"
    by code_simp
  show ?thesis
    using base_excluded_by_path_rows_sorted [OF h1 h2 h3, of 0] m o h3 by simp
qed

subsection \<open>The folder mode does not look at extensions\<close>

text \<open>
  C9. A folder with the base image, a copy of it named \<^verbatim>\<open>copy.tif\<close> and an entry
  \<^verbatim>\<open>zz\<close> that cannot be read. \<open>auto_scan_folder\<close> would consider \<^verbatim>\<open>a.png\<close> only;
  \<open>compare_image_with_folder\<close> compares and reports \<^verbatim>\<open>copy.tif\<close> and prints a load
  error for \<^verbatim>\<open>zz\<close>.
\<close>

theorem folder_mode_takes_any_extension:
  "\<not> is_image_name ''copy.tif''
   \<and> image_files_of (demo True [''a.png'', ''copy.tif'', ''zz'']) ''d'' = [''d/a.png'']
   \<and> fst (compare_image_with_folder (demo True [''a.png'', ''copy.tif'', ''zz''])
             ''d/a.png'' ''d'' 80)
       = [Found ''copy.tif'' 100, LoadFailed ''zz'' OSError, ResultsHeader,
          ResultRow ''copy.tif'' 100]"
  by code_simp

subsection \<open>Reconciliation does not touch the cache\<close>

lemma outer_loop_one_pair:
  assumes "processed_images st p1 = Some img1" and "processed_images st p2 = Some img2"
  shows "outer_loop W t tp [p1, p2] st = pair_step W t tp p1 img1 p2 img2 st"
proof -
  obtain r st' where ps: "pair_step W t tp p1 img1 p2 img2 st = (r, st')"
    by (cases "pair_step W t tp p1 img1 p2 img2 st")
  have "processed_images st' = processed_images st"
    using pair_step_cache [of W t tp p1 img1 p2 img2 st] ps by simp
  then have c: "processed_images st' p2 = Some img2"
    using assms(2) by simp
  show ?thesis
    using assms ps c by (cases r) simp_all
qed

lemma cv2_resize_rows_cols:
  assumes "2 \<le> length (shape img1)"
      and "cv2_resize W (Some img2) (shape img1 ! 1, shape img1 ! 0) = Inr resized"
  shows "take 2 (shape resized) = take 2 (shape img1)"
proof -
  obtain h tl1 where s0: "shape img1 = h # tl1"
    using assms(1) by (cases "shape img1") auto
  obtain w rest where "tl1 = w # rest"
    using assms(1) s0 by (cases tl1) auto
  with s0 have s1: "shape img1 = h # w # rest" by simp
  show ?thesis using assms(2) s1 by (auto simp: cv2_resize_def split: if_splits)
qed

text \<open>
  C8. When the shapes of the two operands differ, the second one is replaced, for this
  comparison, by its resize to the width and height of the first: the pair step scores
  the first operand against that resized array, and what it adds to \<^verbatim>\<open>results\<close> is
  the match of that score; nothing when the resize or the metric fails. The pair loop
  over two cached paths is that pair step. The cache after scoring a pair, and after the
  whole pair loop, is the cache before it.
\<close>

theorem reconciliation_is_local:
  "(shape img1 \<noteq> shape img2 \<and> 2 \<le> length (shape img1) \<longrightarrow>
      reconcile W img1 img2 = cv2_resize W (Some img2) (shape img1 ! 1, shape img1 ! 0)
      \<and> try_compare W img1 img2 =
          (case cv2_resize W (Some img2) (shape img1 ! 1, shape img1 ! 0) of
             Inl e \<Rightarrow> Inl e | Inr resized \<Rightarrow> compare_images W img1 resized)
      \<and> (\<forall>resized. reconcile W img1 img2 = Inr resized \<longrightarrow>
            take 2 (shape resized) = take 2 (shape img1))
      \<and> results (snd (pair_step W t tp p1 img1 p2 img2 st)) =
          (case cv2_resize W (Some img2) (shape img1 ! 1, shape img1 ! 0) of
             Inl e \<Rightarrow> results st
           | Inr resized \<Rightarrow>
               (case compare_images W img1 resized of
                  Inl e \<Rightarrow> results st
                | Inr s \<Rightarrow>
                    if t \<le> s then results st @ [(basename p1, basename p2, s)]
                    else results st)))
   \<and> (processed_images st p1 = Some img1 \<and> processed_images st p2 = Some img2 \<longrightarrow>
        outer_loop W t tp [p1, p2] st = pair_step W t tp p1 img1 p2 img2 st)
   \<and> processed_images (snd (pair_step W t tp p1 img1 p2 img2 st)) = processed_images st
   \<and> processed_images (snd (outer_loop W t tp image_files st)) = processed_images st"
proof -
  have rc: "reconcile W img1 img2 = cv2_resize W (Some img2) (shape img1 ! 1, shape img1 ! 0)"
    if "shape img1 \<noteq> shape img2" "2 \<le> length (shape img1)"
    using that by (simp add: reconcile_def)
  have tc: "try_compare W img1 img2 =
          (case cv2_resize W (Some img2) (shape img1 ! 1, shape img1 ! 0) of
             Inl e \<Rightarrow> Inl e | Inr resized \<Rightarrow> compare_images W img1 resized)"
    if "shape img1 \<noteq> shape img2" "2 \<le> length (shape img1)"
    using rc [OF that] by (simp add: try_compare_def)
  have sh: "take 2 (shape resized) = take 2 (shape img1)"
    if "shape img1 \<noteq> shape img2" "2 \<le> length (shape img1)"
      "reconcile W img1 img2 = Inr resized" for resized
    using cv2_resize_rows_cols [OF that(2), of W img2 resized] rc [OF that(1,2)] that(3)
    by simp
  have rs: "results (snd (pair_step W t tp p1 img1 p2 img2 st)) =
          (case cv2_resize W (Some img2) (shape img1 ! 1, shape img1 ! 0) of
             Inl e \<Rightarrow> results st
           | Inr resized \<Rightarrow>
               (case compare_images W img1 resized of
                  Inl e \<Rightarrow> results st
                | Inr s \<Rightarrow>
                    if t \<le> s then results st @ [(basename p1, basename p2, s)]
                    else results st))"
    if "shape img1 \<noteq> shape img2" "2 \<le> length (shape img1)"
    unfolding pair_step_results tc [OF that] by (simp split: sum.splits)
  have lp: "outer_loop W t tp [p1, p2] st = pair_step W t tp p1 img1 p2 img2 st"
    if "processed_images st p1 = Some img1" "processed_images st p2 = Some img2"
    using that by (rule outer_loop_one_pair)
  show ?thesis
    using rc tc sh rs lp by (simp add: pair_step_cache outer_loop_cache)
qed

theorem reconciliation_is_local_witness:
  "shape \<lparr>shape = [300, 300], pixels = [1]\<rparr> \<noteq> shape \<lparr>shape = [10, 20], pixels = [1]\<rparr>
   \<and> compare_images (demo True []) \<lparr>shape = [300, 300], pixels = [1]\<rparr>
         \<lparr>shape = [10, 20], pixels = [1]\<rparr> = Inl ValueError
   \<and> reconcile (demo True []) \<lparr>shape = [300, 300], pixels = [1]\<rparr>
         \<lparr>shape = [10, 20], pixels = [1]\<rparr> = Inr \<lparr>shape = [300, 300], pixels = [1]\<rparr>
   \<and> try_compare (demo True []) \<lparr>shape = [300, 300], pixels = [1]\<rparr>
         \<lparr>shape = [10, 20], pixels = [1]\<rparr> = Inr 100
   \<and> results (snd (outer_loop (demo True []) 80 1 [''d/a.png'', ''d/b.png'']
         (init_state\<lparr>processed_images :=
            [''d/a.png'' \<mapsto> \<lparr>shape = [300, 300], pixels = [1]\<rparr>,
             ''d/b.png'' \<mapsto> \<lparr>shape = [10, 20], pixels = [1]\<rparr>]\<rparr>)))
       = [(''a.png'', ''b.png'', 100)]
   \<and> processed_images (snd (outer_loop (demo True []) 80 1 [''d/a.png'', ''d/b.png'']
         (init_state\<lparr>processed_images :=
            [''d/a.png'' \<mapsto> \<lparr>shape = [300, 300], pixels = [1]\<rparr>,
             ''d/b.png'' \<mapsto> \<lparr>shape = [10, 20], pixels = [1]\<rparr>]\<rparr>))) ''d/b.png''
       = Some \<lparr>shape = [10, 20], pixels = [1]\<rparr>"
proof -
  have h1: "shape \<lparr>shape = [300, 300], pixels = [1]\<rparr> \<noteq> shape \<lparr>shape = [10, 20], pixels = [1]\<rparr>
            \<and> 2 \<le> length (shape \<lparr>shape = [300, 300], pixels = [1]\<rparr>)"
    by simp
  have h2: "processed_images (init_state\<lparr>processed_images :=
            [''d/a.png'' \<mapsto> \<lparr>shape = [300, 300], pixels = [1]\<rparr>,
             ''d/b.png'' \<mapsto> \<lparr>shape = [10, 20], pixels = [1]\<rparr>]\<rparr>) ''d/a.png''
              = Some \<lparr>shape = [300, 300], pixels = [1]\<rparr>
          \<and> processed_images (init_state\<lparr>processed_images :=
            [''d/a.png'' \<mapsto> \<lparr>shape = [300, 300], pixels = [1]\<rparr>,
             ''d/b.png'' \<mapsto> \<lparr>shape = [10, 20], pixels = [1]\<rparr>]\<rparr>) ''d/b.png''
              = Some \<lparr>shape = [10, 20], pixels = [1]\<rparr>"
    by simp
  have rz: "cv2_resize (demo True []) (Some \<lparr>shape = [10, 20], pixels = [1]\<rparr>) (300, 300)
              = Inr \<lparr>shape = [300, 300], pixels = [1]\<rparr>"
    by (simp add: cv2_resize_def demo_def)
  have c1: "compare_images (demo True []) \<lparr>shape = [300, 300], pixels = [1]\<rparr>
              \<lparr>shape = [300, 300], pixels = [1]\<rparr> = Inr 100"
    by (simp add: compare_images_def demo_def)
  have c2: "compare_images (demo True []) \<lparr>shape = [300, 300], pixels = [1]\<rparr>
              \<lparr>shape = [10, 20], pixels = [1]\<rparr> = Inl ValueError"
    by (simp add: compare_images_def demo_def)
  have bn: "basename ''d/a.png'' = ''a.png''" "basename ''d/b.png'' = ''b.png''"
    by code_simp+
  show ?thesis
    using reconciliation_is_local [where ?img1.0 = "\<lparr>shape = [300, 300], pixels = [1]\<rparr>"
        and ?img2.0 = "\<lparr>shape = [10, 20], pixels = [1]\<rparr>" and W = "demo True []"
        and t = 80 and tp = 1 and ?p1.0 = "''d/a.png''" and ?p2.0 = "''d/b.png''"
        and st = "init_state\<lparr>processed_images :=
            [''d/a.png'' \<mapsto> \<lparr>shape = [300, 300], pixels = [1]\<rparr>,
             ''d/b.png'' \<mapsto> \<lparr>shape = [10, 20], pixels = [1]\<rparr>]\<rparr>"
        and image_files = "[''d/a.png'', ''d/b.png'']"]
      h1 h2 rz c1 c2 bn
    by (simp add: init_state_def)
qed

end
